theory Spec2Isabelle
  imports Complex_Main "HOL-Library.Sublist" "HOL-Library.AList"
begin

section \<open>Document tree\<close>

text \<open>
  A node of the parsed document is either an element, with a tag name, an attribute
  table and an ordered list of children, or a node without tag name and attribute
  table (text, comment, directive). Attribute tables are association lists; a lookup
  \<open>node.attribs.k\<close> is \<open>map_of\<close>, with \<open>None\<close> for JavaScript's \<open>undefined\<close>.
\<close>

datatype node =
    Element string "(string \<times> string) list" "node list"
  | Text string

fun tagName :: "node \<Rightarrow> string option" where
  "tagName (Element t a cs) = Some t"
| "tagName (Text s) = None"

fun attribs :: "node \<Rightarrow> (string \<times> string) list option" where
  "attribs (Element t a cs) = Some a"
| "attribs (Text s) = None"

fun childNodes :: "node \<Rightarrow> node list" where
  "childNodes (Element t a cs) = cs"
| "childNodes (Text s) = []"

text \<open>\<open>node.attribs.k\<close> for an element; a node without attribute table has none.\<close>

definition attr :: "node \<Rightarrow> string \<Rightarrow> string option" where
  "attr n k = (case attribs n of None \<Rightarrow> None | Some a \<Rightarrow> map_of a k)"

section \<open>Qualification policy\<close>

text \<open>\<open>s.endsWith(t)\<close>: a case-sensitive suffix test.\<close>

definition endsWith :: "string \<Rightarrow> string \<Rightarrow> bool" where
  "endsWith s t = suffix t s"

text \<open>
  The source's \<open>hasPlaceholder_\<close>: \<open>node.childNodes.find(child => child.attribs &&
  child.attribs.placeholder !== undefined) !== undefined\<close>.
\<close>

definition placeholder_child :: "node \<Rightarrow> bool" where
  "placeholder_child child = (attribs child \<noteq> None \<and> attr child ''placeholder'' \<noteq> None)"

definition hasPlaceholder :: "node \<Rightarrow> bool" where
  "hasPlaceholder node = (find placeholder_child (childNodes node) \<noteq> None)"

text \<open>
  \<open>shouldAddBlurryPlaceholder_(node, src, tagName)\<close>, one \<open>if\<close> per early return of
  the source, in the source's order. \<open>!src\<close> holds for \<open>undefined\<close> and for the empty
  string. In \<open>transform\<close> a node without tag name has \<open>src\<close> undefined, so the first
  guard returns before \<open>childNodes\<close> or \<open>attribs\<close> of such a node is read.
\<close>

definition shouldAddBlurryPlaceholder :: "node \<Rightarrow> string option \<Rightarrow> string option \<Rightarrow> bool" where
  "shouldAddBlurryPlaceholder node src tag =
    (case src of
       None \<Rightarrow> False
     | Some s \<Rightarrow>
        if s = [] then False
        else if hasPlaceholder node then False
        else if \<not> endsWith s ''.jpg'' \<and> \<not> endsWith s ''jpeg'' then False
        else if tag = Some ''amp-img'' \<and> attr node ''noloading'' \<noteq> None then False
        else
          (let isPoster = (tag = Some ''amp-video'');
               isResponsiveImgWithLoading =
                 (tag = Some ''amp-img'' \<and> attr node ''layout'' = Some ''responsive'')
           in isPoster \<or> isResponsiveImgWithLoading))"

text \<open>
  The image reference that the loop body of \<open>transform\<close> computes for a node: \<open>src\<close> of
  an \<open>amp-img\<close>, a truthy \<open>poster\<close> of an \<open>amp-video\<close>, otherwise \<open>undefined\<close>.
\<close>

definition truthy :: "string option \<Rightarrow> bool" where
  "truthy v = (case v of None \<Rightarrow> False | Some s \<Rightarrow> s \<noteq> [])"

definition image_reference :: "node \<Rightarrow> string option" where
  "image_reference node =
    (let src0 = (if tagName node = Some ''amp-img'' then attr node ''src'' else None)
     in if tagName node = Some ''amp-video'' \<and> truthy (attr node ''poster'')
        then attr node ''poster'' else src0)"

text \<open>The test of the loop body: \<open>this.shouldAddBlurryPlaceholder_(node, src, tagName)\<close>.\<close>

definition qualifies :: "node \<Rightarrow> bool" where
  "qualifies node = shouldAddBlurryPlaceholder node (image_reference node) (tagName node)"

section \<open>Numbers\<close>

text \<open>
  A JavaScript Number: a finite value of the binary64 format of IEEE 754, or one of
  its special values. \<open>Fin 0\<close> is the positive zero and \<open>NegZero\<close> the negative one.
  The operator \<open>/\<close> and \<open>Math.sqrt\<close> return the Number nearest to the exact result, a
  tie going to the even significand: a multiple of the unit in the last place, which
  leaves 53 significant bits to a result of at least \<open>2 powi - 1022\<close> and is
  \<open>2 powi - 1074\<close> below that; an infinity when the rounded magnitude reaches
  \<open>2 ^ 1024\<close>, and a zero when it is 0. For \<open>Math.sqrt\<close> this is the square root
  operation of IEEE 754, which the engine of the platform uses. \<open>Math.round\<close>, and all
  operations on zeros, infinities and NaN, are as the language defines them. No
  operation on Numbers raises.
\<close>

datatype number = Fin real | NegZero | PosInf | NegInf | NaN

fun negative :: "number \<Rightarrow> bool" where
  "negative (Fin x) = (x < 0)"
| "negative NegZero = True"
| "negative PosInf = False"
| "negative NegInf = True"
| "negative NaN = False"

fun is_zero :: "number \<Rightarrow> bool" where
  "is_zero (Fin x) = (x = 0)"
| "is_zero NegZero = True"
| "is_zero n = False"

fun is_inf :: "number \<Rightarrow> bool" where
  "is_inf PosInf = True"
| "is_inf NegInf = True"
| "is_inf n = False"

fun magnitude :: "number \<Rightarrow> real" where
  "magnitude (Fin x) = x"
| "magnitude n = 0"

definition zero_of :: "bool \<Rightarrow> number" where
  "zero_of neg = (if neg then NegZero else Fin 0)"

definition inf_of :: "bool \<Rightarrow> number" where
  "inf_of neg = (if neg then NegInf else PosInf)"

text \<open>The integer nearest to a real, a tie going to the even one.\<close>

definition round_even :: "real \<Rightarrow> int" where
  "round_even y =
    (let f = \<lfloor>y\<rfloor> in
       if y - of_int f < 1 / 2 then f
       else if 1 / 2 < y - of_int f then f + 1
       else if even f then f else f + 1)"

text \<open>
  The exponent of the unit in the last place of a positive real, and the nearest
  multiple of that unit.
\<close>

definition ulp_exponent :: "real \<Rightarrow> int" where
  "ulp_exponent x = max \<lfloor>log 2 x\<rfloor> (- 1022) - 52"

definition nearest :: "real \<Rightarrow> real" where
  "nearest x = of_int (round_even (x / 2 powi ulp_exponent x)) * 2 powi ulp_exponent x"

text \<open>The Number that an exact result is rounded to.\<close>

definition to_double :: "real \<Rightarrow> number" where
  "to_double x =
    (let v = nearest \<bar>x\<bar> in
       if 2 ^ 1024 \<le> v then inf_of (x < 0)
       else if v = 0 then zero_of (x < 0)
       else Fin (if x < 0 then - v else v))"

text \<open>The operator \<open>/\<close>.\<close>

definition js_div :: "number \<Rightarrow> number \<Rightarrow> number" where
  "js_div a b =
    (if a = NaN \<or> b = NaN then NaN
     else let neg = (negative a \<noteq> negative b) in
       if is_inf a then (if is_inf b then NaN else inf_of neg)
       else if is_inf b then zero_of neg
       else if is_zero b then (if is_zero a then NaN else inf_of neg)
       else if is_zero a then zero_of neg
       else to_double (magnitude a / magnitude b))"

text \<open>\<open>Math.sqrt\<close>.\<close>

fun js_sqrt :: "number \<Rightarrow> number" where
  "js_sqrt (Fin x) = (if x < 0 then NaN else to_double (sqrt x))"
| "js_sqrt NegZero = NegZero"
| "js_sqrt PosInf = PosInf"
| "js_sqrt NegInf = NaN"
| "js_sqrt NaN = NaN"

text \<open>\<open>Math.round\<close>: the nearest integer, a tie going up; \<open>-0\<close> for \<open>-0.5 \<le> x < 0\<close>.\<close>

fun js_round :: "number \<Rightarrow> number" where
  "js_round (Fin x) = (if x < 0 \<and> round x = 0 then NegZero else Fin (of_int (round x)))"
| "js_round n = n"

section \<open>Errors and promises\<close>

datatype error = TypeError string | Error string

fun message :: "error \<Rightarrow> string" where
  "message (TypeError m) = m"
| "message (Error m) = m"

text \<open>The assignment \<open>e.message = m\<close>.\<close>

fun with_message :: "error \<Rightarrow> string \<Rightarrow> error" where
  "with_message (TypeError old) m = TypeError m"
| "with_message (Error old) m = Error m"

text \<open>
  A function that may throw returns \<open>error + 'a\<close>, with \<open>Inl\<close> for the exception. A
  promise is modelled by the state it settles in: \<open>Inl\<close> rejected, \<open>Inr\<close> fulfilled.
  A callback of \<open>then\<close> or \<open>catch\<close> returns a value or throws, which settles the
  promise that \<open>then\<close> or \<open>catch\<close> returns.
\<close>

type_synonym 'a promise = "error + 'a"

definition then_p :: "'a promise \<Rightarrow> ('a \<Rightarrow> 'b promise) \<Rightarrow> 'b promise" where
  "then_p p f = (case p of Inl e \<Rightarrow> Inl e | Inr v \<Rightarrow> f v)"

definition catch_p :: "'a promise \<Rightarrow> (error \<Rightarrow> 'a promise) \<Rightarrow> 'a promise" where
  "catch_p p handler = (case p of Inl e \<Rightarrow> handler e | Inr v \<Rightarrow> Inr v)"

text \<open>\<open>Promise.all\<close>: rejected as soon as one of the promises is, fulfilled otherwise.\<close>

fun Promise_all :: "'a promise list \<Rightarrow> 'a list promise" where
  "Promise_all [] = Inr []"
| "Promise_all (p # ps) =
     (case p of
        Inl e \<Rightarrow> Inl e
      | Inr v \<Rightarrow> (case Promise_all ps of Inl e \<Rightarrow> Inl e | Inr vs \<Rightarrow> Inr (v # vs)))"

section \<open>Thumbnail dimensions\<close>

record 'a dimensions =
  width :: 'a
  height :: 'a

definition PIXEL_TARGET :: number where
  "PIXEL_TARGET = Fin 60"

text \<open>
  \<open>getBitmapDimensions_(imgWidth, imgHeight)\<close>. The source has no \<open>throw\<close> and no test
  of its arguments: every call returns an object.
\<close>

definition getBitmapDimensions :: "number \<Rightarrow> number \<Rightarrow> error + number dimensions" where
  "getBitmapDimensions imgWidth imgHeight =
    (let ratioWH = js_div imgWidth imgHeight;
         bitmapHeight = js_div PIXEL_TARGET ratioWH;
         bitmapHeight = js_sqrt bitmapHeight;
         bitmapWidth = js_div PIXEL_TARGET bitmapHeight
     in Inr \<lparr>width = js_round bitmapWidth, height = js_round bitmapHeight\<rparr>)"

section \<open>Placeholder markup\<close>

text \<open>
  Strings are lists of characters with codes below 256. The class \<open>\s\<close> of a regular
  expression holds, among these, the codes 9 to 13, 32 and 160.
\<close>

definition whitespace :: "char \<Rightarrow> bool" where
  "whitespace c = (of_char c \<in> {9, 10, 11, 12, 13, 32, 160 :: nat})"

text \<open>\<open>svg.replace(/\s+/g, ' ')\<close>: every maximal run of whitespace becomes one space.\<close>

function collapse_whitespace :: "string \<Rightarrow> string" where
  "collapse_whitespace [] = []"
| "collapse_whitespace (c # cs) =
     (if whitespace c then CHR '' '' # collapse_whitespace (dropWhile whitespace cs)
      else c # collapse_whitespace cs)"
  by pat_completeness auto
termination
  by (relation "measure length") (auto simp: length_dropWhile_le less_Suc_eq_le)

text \<open>
  \<open>svg.replace(/> </g, '><')\<close>: matches are found from left to right, the search going
  on after the end of a match.
\<close>

fun join_tags :: "string \<Rightarrow> string" where
  "join_tags (a # b # c # cs) =
     (if a = CHR ''>'' \<and> b = CHR '' '' \<and> c = CHR ''<''
      then CHR ''>'' # CHR ''<'' # join_tags cs
      else a # join_tags (b # c # cs))"
| "join_tags cs = cs"

definition ESCAPE_TABLE :: "(char \<times> string) list" where
  \<open>ESCAPE_TABLE =
    [(CHR ''#'', ''%23''),
     (CHR ''%'', ''%25''),
     (CHR '':'', ''%3A''),
     (CHR ''<'', ''%3C''),
     (CHR ''>'', ''%3E''),
     (CHR 0x22, [CHR 0x27])]\<close>

text \<open>
  \<open>svg.replace(ESCAPE_REGEX, escaper)\<close>: \<open>ESCAPE_REGEX\<close> is the alternation of the keys
  of the table, each one character, so a character matches when it is a key, and
  \<open>escaper\<close> replaces it by its entry. The search goes on after the match, in the
  source string: the replacement text is not searched.
\<close>

fun escape :: "string \<Rightarrow> string" where
  "escape [] = []"
| "escape (c # cs) =
     (case map_of ESCAPE_TABLE c of
        Some replacement \<Rightarrow> replacement @ escape cs
      | None \<Rightarrow> c # escape cs)"

text \<open>The decimal digits of a pixel count, as a template literal prints it.\<close>

fun digits :: "nat \<Rightarrow> string" where
  "digits n =
     (if n < 10 then [char_of (48 + n)]
      else digits (n div 10) @ [char_of (48 + n mod 10)])"

text \<open>A line break of the template literal, with the indentation of the next line.\<close>

definition line_break :: "nat \<Rightarrow> string" where
  "line_break n = CHR 0x0A # replicate n (CHR '' '')"

text \<open>The template literal of \<open>addBlurryPlaceholder_\<close>, with its three holes.\<close>

definition svg_markup :: "string \<Rightarrow> string \<Rightarrow> string \<Rightarrow> string" where
  \<open>svg_markup w h href =
     ''<svg xmlns="http://www.w3.org/2000/svg"'' @ line_break 22 @
     ''xmlns:xlink="http://www.w3.org/1999/xlink"'' @ line_break 22 @
     ''viewBox="0 0 '' @ w @ '' '' @ h @ ''">'' @ line_break 22 @
     ''<filter id="b" color-interpolation-filters="sRGB">'' @ line_break 24 @
     ''<feGaussianBlur stdDeviation=".5"></feGaussianBlur>'' @ line_break 24 @
     ''<feComponentTransfer>'' @ line_break 26 @
     ''<feFuncA type="discrete" tableValues="1 1"></feFuncA>'' @ line_break 24 @
     ''</feComponentTransfer>'' @ line_break 22 @
     ''</filter>'' @ line_break 22 @
     ''<image filter="url(#b)" x="0" y="0"'' @ line_break 24 @
     ''height="100%" width="100%"'' @ line_break 24 @
     ''xlink:href="'' @ href @ ''">'' @ line_break 22 @
     ''</image>'' @ line_break 20 @
     ''</svg>''\<close>

text \<open>The three \<open>replace\<close> calls, in the source's order.\<close>

definition optimize_markup :: "string \<Rightarrow> string" where
  "optimize_markup svg =
    (let svg = collapse_whitespace svg;
         svg = join_tags svg;
         svg = escape svg
     in svg)"

section \<open>The platform\<close>

text \<open>
  The decoder and the functions of the platform are not part of the program.
  \<open>jimp_read\<close> is \<open>jimp.read\<close>, \<open>jimp_resize env image w h\<close> is
  \<open>image.resize(w, h, jimp.RESIZE_BEZIER)\<close> and \<open>jimp_getBase64Async\<close> is
  \<open>image.getBase64Async\<close>: they are parameters, as is \<open>cwd\<close>, the working directory of
  the process.
\<close>

record image =
  bitmap_width :: nat
  bitmap_height :: nat
  pixels :: string

text \<open>
  The constructor \<open>new URL(url, base)\<close> follows the URL Standard: \<open>base\<close> is parsed
  first, on its own, and the constructor throws a TypeError when that fails, whatever
  \<open>url\<close> is. A string is parsed on its own only if it starts with a scheme, once its
  leading and trailing C0 control characters and spaces are stripped and its tabs and
  newlines removed: a letter, then letters, digits, \<open>+\<close>, \<open>-\<close> or \<open>.\<close>, then a colon.
\<close>

definition c0_control_or_space :: "char \<Rightarrow> bool" where
  "c0_control_or_space c = (of_char c \<le> (32 :: nat))"

definition tab_or_newline :: "char \<Rightarrow> bool" where
  "tab_or_newline c = (of_char c \<in> {9, 10, 13 :: nat})"

definition url_input :: "string \<Rightarrow> string" where
  "url_input s =
     filter (\<lambda>c. \<not> tab_or_newline c)
       (rev (dropWhile c0_control_or_space (rev (dropWhile c0_control_or_space s))))"

definition ascii_alpha :: "char \<Rightarrow> bool" where
  "ascii_alpha c = (let n = of_char c :: nat in (65 \<le> n \<and> n \<le> 90) \<or> (97 \<le> n \<and> n \<le> 122))"

definition ascii_digit :: "char \<Rightarrow> bool" where
  "ascii_digit c = (let n = of_char c :: nat in 48 \<le> n \<and> n \<le> 57)"

fun scheme_state :: "string \<Rightarrow> bool" where
  "scheme_state [] = False"
| "scheme_state (c # cs) =
     (if ascii_alpha c \<or> ascii_digit c \<or> c \<in> {CHR ''+'', CHR ''-'', CHR ''.''} then scheme_state cs
      else c = CHR '':'')"

definition has_scheme :: "string \<Rightarrow> bool" where
  "has_scheme s = (case s of [] \<Rightarrow> False | c # cs \<Rightarrow> ascii_alpha c \<and> scheme_state cs)"

text \<open>
  \<open>join\<close> and \<open>resolve\<close> of the path module, in its POSIX variant. Both work on the
  segments between the separators: an empty segment and \<open>.\<close> are dropped, and \<open>..\<close>
  removes the segment before it, or is kept when there is none to remove and the path
  is relative. \<open>join\<close> puts a separator between its arguments that are not empty and
  keeps a trailing separator; \<open>resolve\<close> puts the working directory before a relative
  path.
\<close>

fun split_path :: "string \<Rightarrow> string list" where
  "split_path [] = [[]]"
| "split_path (c # cs) =
     (if c = CHR ''/'' then [] # split_path cs
      else (case split_path cs of [] \<Rightarrow> [[c]] | s # ss \<Rightarrow> (c # s) # ss))"

fun unsplit_path :: "string list \<Rightarrow> string" where
  "unsplit_path [] = []"
| "unsplit_path [s] = s"
| "unsplit_path (s # t # ss) = s @ ''/'' @ unsplit_path (t # ss)"

fun normalize_segments :: "bool \<Rightarrow> string list \<Rightarrow> string list \<Rightarrow> string list" where
  "normalize_segments allowAboveRoot res [] = rev res"
| "normalize_segments allowAboveRoot res (s # ss) =
     (if s = [] \<or> s = ''.'' then normalize_segments allowAboveRoot res ss
      else if s = ''..'' then
        (case res of
           t # ts \<Rightarrow>
             if t \<noteq> ''..'' then normalize_segments allowAboveRoot ts ss
             else normalize_segments allowAboveRoot (if allowAboveRoot then s # res else res) ss
         | [] \<Rightarrow> normalize_segments allowAboveRoot (if allowAboveRoot then [s] else []) ss)
      else normalize_segments allowAboveRoot (s # res) ss)"

definition normalizeString :: "string \<Rightarrow> bool \<Rightarrow> string" where
  "normalizeString path allowAboveRoot =
     unsplit_path (normalize_segments allowAboveRoot [] (split_path path))"

definition absolute :: "string \<Rightarrow> bool" where
  "absolute path = (case path of [] \<Rightarrow> False | c # cs \<Rightarrow> c = CHR ''/'')"

definition path_normalize :: "string \<Rightarrow> string" where
  "path_normalize path =
     (if path = [] then ''.''
      else let isAbsolute = absolute path;
               trailingSeparator = (last path = CHR ''/'');
               p = normalizeString path (\<not> isAbsolute)
           in if p = [] then (if isAbsolute then ''/'' else if trailingSeparator then ''./'' else ''.'')
              else (if isAbsolute then ''/'' else []) @ p @ (if trailingSeparator then ''/'' else []))"

definition path_join :: "string \<Rightarrow> string \<Rightarrow> string" where
  "path_join a b =
     (case filter (\<lambda>arg. arg \<noteq> []) [a, b] of
        [] \<Rightarrow> ''.''
      | args \<Rightarrow> path_normalize (unsplit_path args))"

definition path_resolve :: "string \<Rightarrow> string \<Rightarrow> string" where
  "path_resolve cwd path =
     (let resolvedPath = (if path = [] then [] else path @ ''/'');
          resolvedAbsolute = absolute path;
          resolvedPath = (if resolvedAbsolute \<or> cwd = [] then resolvedPath else cwd @ ''/'' @ resolvedPath);
          resolvedAbsolute = (resolvedAbsolute \<or> absolute cwd);
          resolvedPath = normalizeString resolvedPath (\<not> resolvedAbsolute)
      in if resolvedAbsolute then ''/'' @ resolvedPath
         else if resolvedPath = [] then ''.'' else resolvedPath)"

text \<open>
  \<open>url_parse env url base\<close> is what the parser of the platform makes of \<open>url\<close> against a
  base that starts with a scheme: the string form of the URL, or an exception.
\<close>

record environment =
  url_parse :: "string \<Rightarrow> string \<Rightarrow> error + string"
  cwd :: string
  jimp_read :: "string \<Rightarrow> image promise"
  jimp_resize :: "image \<Rightarrow> number \<Rightarrow> number \<Rightarrow> error + image"
  jimp_getBase64Async :: "image \<Rightarrow> string \<Rightarrow> string promise"

text \<open>\<open>new URL(url, base).toString()\<close>.\<close>

definition URL_toString :: "environment \<Rightarrow> string \<Rightarrow> string \<Rightarrow> error + string" where
  "URL_toString env url base =
     (if has_scheme (url_input base) then url_parse env url base
      else Inl (TypeError ''Invalid URL''))"

record params =
  imageBasePath :: "string option"

section \<open>One placeholder\<close>

text \<open>\<open>resolvePath_(base, path)\<close>: the \<open>try\<close> block, and the \<open>catch\<close> block for any exception.\<close>

definition resolvePath :: "environment \<Rightarrow> string \<Rightarrow> string \<Rightarrow> error + string" where
  "resolvePath env base path =
    (case URL_toString env path base of
       Inr href \<Rightarrow> Inr href
     | Inl e \<Rightarrow> Inr (path_resolve (cwd env) (path_join base path)))"

record data_uri = "nat dimensions" +
  data_src :: string

text \<open>
  \<open>getDataURI_(img, params)\<close>, where \<open>img.attribs.src\<close> is the reference that
  \<open>addBlurryPlaceholder_\<close> has just stored there. \<open>params.imageBasePath || ''\<close> is the
  empty string for a missing or empty option. The first callback stores the
  dimensions of the resized bitmap, the second one reads them. \<open>resolvePath_\<close> and
  \<open>getBitmapDimensions_\<close> raise nothing, so their error branches are never taken.
\<close>

definition getDataURI :: "environment \<Rightarrow> params \<Rightarrow> string \<Rightarrow> data_uri promise" where
  "getDataURI env ps img_src =
    (let basePath = (case imageBasePath ps of None \<Rightarrow> [] | Some b \<Rightarrow> b)
     in case resolvePath env basePath img_src of
          Inl e \<Rightarrow> Inl e
        | Inr imageSrc \<Rightarrow>
            catch_p
              (then_p
                (then_p (jimp_read env imageSrc)
                  (\<lambda>image.
                     case getBitmapDimensions (Fin (real (bitmap_width image)))
                            (Fin (real (bitmap_height image))) of
                       Inl e \<Rightarrow> Inl e
                     | Inr imgDimension \<Rightarrow>
                        (case jimp_resize env image (width imgDimension) (height imgDimension) of
                           Inl e \<Rightarrow> Inl e
                         | Inr resized \<Rightarrow>
                             then_p (jimp_getBase64Async env resized ''image/png'')
                               (\<lambda>dataURI. Inr (dataURI, bitmap_width resized, bitmap_height resized)))))
                (\<lambda>(dataURI, w, h). Inr \<lparr>width = w, height = h, data_src = dataURI\<rparr>))
              (\<lambda>e. Inl (with_message e
                   (''Could not create placeholder for '' @ imageSrc @ ''. Reason: '' @ message e))))"

text \<open>
  The \<open>img\<close> element that \<open>addBlurryPlaceholder_\<close> creates, after its three
  assignments to \<open>img.attribs\<close>.
\<close>

definition new_placeholder :: "string \<Rightarrow> node" where
  "new_placeholder img_src =
     Element ''img''
       (AList.update ''src'' img_src
         (AList.update ''placeholder'' []
           (AList.update ''class'' ''i-amphtml-blurry-placeholder'' []))) []"

fun set_src :: "node \<Rightarrow> string \<Rightarrow> node" where
  "set_src (Element t a cs) v = Element t (AList.update ''src'' v a) cs"
| "set_src (Text s) v = Text s"

text \<open>
  \<open>addBlurryPlaceholder_(tree, src, params)\<close>. The result is the state in which the
  returned promise settles, with the lines that \<open>log.error\<close> has written. The handler
  of \<open>catch\<close> logs and returns nothing: the promise is then fulfilled with
  \<open>undefined\<close>, which is \<open>None\<close>.
\<close>

definition addBlurryPlaceholder ::
  "environment \<Rightarrow> params \<Rightarrow> string \<Rightarrow> node option promise \<times> string list" where
  "addBlurryPlaceholder env ps img_src =
    (let img = new_placeholder img_src
     in case then_p (getDataURI env ps img_src)
               (\<lambda>dataURI.
                  let svg = svg_markup (digits (width dataURI)) (digits (height dataURI)) (data_src dataURI);
                      svg = optimize_markup svg
                  in Inr (Some (set_src img (''data:image/svg+xml;charset=utf-8,'' @ svg)))) of
          Inr img \<Rightarrow> (Inr img, [])
        | Inl err \<Rightarrow> (Inr None, [''[AddBlurryImagePlaceholders]  '' @ message err]))"

section \<open>Traversal\<close>

text \<open>
  A node of the document that the program holds a reference to is given by its path
  from the \<open>body\<close> element: the indices of the children to descend through.
\<close>

type_synonym path = "nat list"

text \<open>
  Modelled from the spec: the traversal cursor of the tree adapter (\<open>nextNode\<close> of a
  node and \<open>skipNodeAndChildren\<close> of \<open>HtmlDomHelper\<close>), which are not among the sources.
  The spec asks for a cursor over the nodes in pre-order (current node, then children,
  then siblings) with a companion operation that skips an entire subtree. A cursor is
  the list of the subtrees still to be walked, each with its path: its head is the
  current node, and the empty list is \<open>null\<close>. \<open>nextNode\<close> goes to the first child if
  there is one, else to the node that follows in document order;
  \<open>skipNodeAndChildren\<close> goes to the node that follows the subtree of the current
  node. The walk starts at the \<open>body\<close> element and covers its subtree, the body root of
  the document in the spec: the cursor past the last node of the body is \<open>null\<close>.
\<close>

type_synonym cursor = "(path \<times> node) list"

fun number_children :: "path \<Rightarrow> nat \<Rightarrow> node list \<Rightarrow> cursor" where
  "number_children p i [] = []"
| "number_children p i (c # cs) = (p @ [i], c) # number_children p (Suc i) cs"

definition children_at :: "path \<Rightarrow> node \<Rightarrow> cursor" where
  "children_at p n = number_children p 0 (childNodes n)"

definition nextNode :: "cursor \<Rightarrow> cursor" where
  "nextNode c = (case c of [] \<Rightarrow> [] | (p, n) # rest \<Rightarrow> children_at p n @ rest)"

definition skipNodeAndChildren :: "cursor \<Rightarrow> cursor" where
  "skipNodeAndChildren c = (case c of [] \<Rightarrow> [] | (p, n) # rest \<Rightarrow> rest)"

text \<open>The number of nodes still ahead of a cursor: the measure of the loops below.\<close>

fun node_count :: "node \<Rightarrow> nat" where
  "node_count (Element t a cs) = Suc (sum_list (map node_count cs))"
| "node_count (Text s) = 1"

definition remaining :: "cursor \<Rightarrow> nat" where
  "remaining c = sum_list (map (\<lambda>(p, n). node_count n) c)"

lemma remaining_simps [simp]:
  "remaining [] = 0"
  "remaining ((p, n) # c) = node_count n + remaining c"
  "remaining (c @ d) = remaining c + remaining d"
  by (simp_all add: remaining_def)

lemma remaining_number_children:
  "remaining (number_children p i cs) = sum_list (map node_count cs)"
  by (induction cs arbitrary: i) auto

lemma remaining_children [simp]: "remaining (children_at p n) < node_count n"
  by (cases n) (simp_all add: children_at_def remaining_number_children)

lemma remaining_children_add [simp]: "remaining (children_at p n) < k + node_count n"
  using remaining_children[of p n] by linarith

section \<open>The transformer\<close>

definition MAX_BLURRED_PLACEHOLDERS :: nat where
  "MAX_BLURRED_PLACEHOLDERS = 5"

text \<open>
  What the loop body decides for a node that is not a template: the reference to
  build a placeholder from, when \<open>shouldAddBlurryPlaceholder_\<close> accepts the node.
\<close>

definition candidate :: "node \<Rightarrow> string option" where
  "candidate node = (if qualifies node then image_reference node else None)"

text \<open>
  The loop of \<open>transform\<close>, from a cursor, the count \<open>placeholders\<close> and the list
  \<open>promises\<close>; \<open>launch src\<close> is \<open>this.addBlurryPlaceholder_(tree, src, params)\<close>. Each
  entry of \<open>promises\<close> holds the path of the node that its callback will append to.
  The result is the list at the end of the loop, and the exception that ended the
  loop, if one did. After \<open>continue\<close> the update expression \<open>node = node.nextNode()\<close> of
  the \<open>for\<close> statement is evaluated, on the node that \<open>skipNodeAndChildren\<close> returned:
  on \<open>null\<close> this is a TypeError.
\<close>

function walk ::
  "(string \<Rightarrow> 'u) \<Rightarrow> cursor \<Rightarrow> nat \<Rightarrow> (path \<times> 'u) list \<Rightarrow> (path \<times> 'u) list \<times> error option" where
  "walk launch [] placeholders promises = (promises, None)"
| "walk launch ((p, node) # rest) placeholders promises =
    (if tagName node = Some ''template'' then
       (case skipNodeAndChildren ((p, node) # rest) of
          [] \<Rightarrow> (promises, Some (TypeError ''Cannot read property nextNode of null''))
        | c # cs \<Rightarrow> walk launch (nextNode (c # cs)) placeholders promises)
     else
       (case candidate node of
          Some src \<Rightarrow>
            (let placeholders = placeholders + 1;
                 promises = promises @ [(p, launch src)]
             in if placeholders \<ge> MAX_BLURRED_PLACEHOLDERS then (promises, None)
                else walk launch (nextNode ((p, node) # rest)) placeholders promises)
        | None \<Rightarrow> walk launch (nextNode ((p, node) # rest)) placeholders promises))"
  by pat_completeness auto
termination
  by (relation "measure (\<lambda>(l, c, k, ps). remaining c)")
     (auto simp: nextNode_def skipNodeAndChildren_def)

text \<open>
  The nodes on which the loop body runs, in order: the same loop, recording the node
  at each iteration instead of the promises.
\<close>

function visited :: "cursor \<Rightarrow> nat \<Rightarrow> cursor" where
  "visited [] placeholders = []"
| "visited ((p, node) # rest) placeholders =
    (p, node) #
    (if tagName node = Some ''template'' then
       (case skipNodeAndChildren ((p, node) # rest) of
          [] \<Rightarrow> []
        | c # cs \<Rightarrow> visited (nextNode (c # cs)) placeholders)
     else
       (case candidate node of
          Some src \<Rightarrow>
            (if placeholders + 1 \<ge> MAX_BLURRED_PLACEHOLDERS then []
             else visited (nextNode ((p, node) # rest)) (placeholders + 1))
        | None \<Rightarrow> visited (nextNode ((p, node) # rest)) placeholders))"
  by pat_completeness auto
termination
  by (relation "measure (\<lambda>(c, k). remaining c)")
     (auto simp: nextNode_def skipNodeAndChildren_def)

text \<open>The same loop without the cap: the nodes that the cursor of the loop stops at.\<close>

function traversal :: "cursor \<Rightarrow> cursor" where
  "traversal [] = []"
| "traversal ((p, node) # rest) =
    (p, node) #
    (if tagName node = Some ''template'' then
       (case skipNodeAndChildren ((p, node) # rest) of
          [] \<Rightarrow> []
        | c # cs \<Rightarrow> traversal (nextNode (c # cs)))
     else traversal (nextNode ((p, node) # rest)))"
  by pat_completeness auto
termination
  by (relation "measure remaining") (auto simp: nextNode_def skipNodeAndChildren_def)

text \<open>Document order: the nodes that \<open>nextNode\<close> alone goes through.\<close>

function document_order :: "cursor \<Rightarrow> cursor" where
  "document_order [] = []"
| "document_order ((p, node) # rest) = (p, node) # document_order (nextNode ((p, node) # rest))"
  by pat_completeness auto
termination
  by (relation "measure remaining") (auto simp: nextNode_def)

text \<open>
  Modelled from the spec: \<open>appendChild\<close> and \<open>firstChildByTag\<close> of the tree adapter,
  which are not among the sources. \<open>appendChild\<close> adds a node as the last child; for
  the \<open>undefined\<close> that a failed placeholder leaves, the spec says that no placeholder
  is added for the element. \<open>firstChildByTag\<close> is the first child with the tag name,
  here with its index, or \<open>null\<close>.
\<close>

fun appendChild :: "node \<Rightarrow> node option \<Rightarrow> node" where
  "appendChild (Element t a cs) (Some child) = Element t a (cs @ [child])"
| "appendChild node child = node"

fun first_by_tag :: "string \<Rightarrow> nat \<Rightarrow> node list \<Rightarrow> (nat \<times> node) option" where
  "first_by_tag t i [] = None"
| "first_by_tag t i (c # cs) = (if tagName c = Some t then Some (i, c) else first_by_tag t (Suc i) cs)"

definition firstChildByTag :: "node \<Rightarrow> string \<Rightarrow> (nat \<times> node) option" where
  "firstChildByTag node t = first_by_tag t 0 (childNodes node)"

text \<open>The document after an operation on the node at a path.\<close>

fun update_at :: "path \<Rightarrow> (node \<Rightarrow> node) \<Rightarrow> node \<Rightarrow> node" where
  "update_at [] f node = f node"
| "update_at (i # p) f (Element t a cs) =
     Element t a (if i < length cs then cs[i := update_at p f (cs ! i)] else cs)"
| "update_at (i # p) f (Text s) = Text s"

text \<open>
  The callback \<open>(img) => { node.appendChild(img); }\<close> of one promise of the list, run on
  the document: the document after it, and the state of the promise \<open>p\<close>.
\<close>

definition settle :: "node \<Rightarrow> path \<times> node option promise \<times> string list \<Rightarrow> node \<times> unit promise" where
  "settle body u =
    (case u of (p, result, logged) \<Rightarrow>
       (case result of
          Inl e \<Rightarrow> (body, Inl e)
        | Inr img \<Rightarrow> (update_at p (\<lambda>node. appendChild node img) body, Inr ())))"

fun settle_all ::
  "node \<Rightarrow> (path \<times> node option promise \<times> string list) list \<Rightarrow> node \<times> unit promise list" where
  "settle_all body [] = (body, [])"
| "settle_all body (u # us) =
     (case settle body u of (body', p) \<Rightarrow>
        (case settle_all body' us of (body'', ps) \<Rightarrow> (body'', p # ps)))"

text \<open>
  How a call of \<open>transform\<close> ends: with an exception, or with a promise that is
  fulfilled or rejected.
\<close>

datatype completion = Threw error | Resolved | Rejected error

record outcome =
  completion :: completion
  document :: node
  log_lines :: "string list"

text \<open>
  \<open>transform(tree, params)\<close> on the document \<open>doc\<close>, the value of \<open>tree.root\<close>. The callbacks of the promises run
  after the loop has ended, also when it has ended with an exception; they are run
  here in the order of the list. Each appends to a node of its own, so the document
  at the end does not depend on this order.
\<close>

definition null_error :: error where
  "null_error = TypeError ''Cannot read property firstChildByTag of null''"

definition transform :: "environment \<Rightarrow> params \<Rightarrow> node \<Rightarrow> outcome" where
  "transform env ps doc =
    (case firstChildByTag doc ''html'' of
       None \<Rightarrow> \<lparr>completion = Threw null_error, document = doc, log_lines = []\<rparr>
     | Some (i, html) \<Rightarrow>
        (case firstChildByTag html ''body'' of
           None \<Rightarrow> \<lparr>completion = Threw null_error, document = doc, log_lines = []\<rparr>
         | Some (j, body) \<Rightarrow>
            (case walk (addBlurryPlaceholder env ps) [([], body)] 0 [] of
               (promises, thrown) \<Rightarrow>
                 (case settle_all body promises of
                    (body', ps') \<Rightarrow>
                      \<lparr>completion =
                         (case thrown of
                            Some e \<Rightarrow> Threw e
                          | None \<Rightarrow>
                             (case Promise_all ps' of Inl e \<Rightarrow> Rejected e | Inr done \<Rightarrow> Resolved)),
                       document = update_at [i, j] (\<lambda>old. body') doc,
                       log_lines = concat (map (\<lambda>(p, result, logged). logged) promises)\<rparr>))))"

section \<open>Notions for the statements\<close>

text \<open>
  The nodes of a subtree in pre-order, each with its path: the node, then the subtrees
  of its children from left to right.
\<close>

fun preorder :: "path \<Rightarrow> node \<Rightarrow> cursor"
  and preorder_children :: "path \<Rightarrow> nat \<Rightarrow> node list \<Rightarrow> cursor" where
  "preorder p (Element t a cs) = (p, Element t a cs) # preorder_children p 0 cs"
| "preorder p (Text s) = [(p, Text s)]"
| "preorder_children p i [] = []"
| "preorder_children p i (c # cs) = preorder (p @ [i]) c @ preorder_children p (Suc i) cs"

text \<open>
  The promises that the loop body creates on a list of nodes when it runs on each of
  them: one for every node that it accepts, in the order of the list.
\<close>

definition unit_of :: "(string \<Rightarrow> 'u) \<Rightarrow> path \<times> node \<Rightarrow> (path \<times> 'u) list" where
  "unit_of launch x = (case candidate (snd x) of Some src \<Rightarrow> [(fst x, launch src)] | None \<Rightarrow> [])"

definition units_of :: "(string \<Rightarrow> 'u) \<Rightarrow> cursor \<Rightarrow> (path \<times> 'u) list" where
  "units_of launch c = concat (map (unit_of launch) c)"

text \<open>A template element among the nodes ahead of a cursor.\<close>

definition has_template :: "cursor \<Rightarrow> bool" where
  "has_template c = (\<exists>x \<in> set (document_order c). tagName (snd x) = Some ''template'')"

text \<open>The node at a path, if the path leads to one.\<close>

fun node_at :: "node \<Rightarrow> path \<Rightarrow> node option" where
  "node_at n [] = Some n"
| "node_at (Element t a cs) (i # p) = (if i < length cs then node_at (cs ! i) p else None)"
| "node_at (Text s) (i # p) = None"

text \<open>
  A document with new last children: \<open>graft g node\<close> appends \<open>img\<close> to the element at
  every path \<open>p\<close> with \<open>g p = Some img\<close>. The callbacks of the promises, run one after the
  other, build such a document, for the assignment \<open>place g promises\<close>.
\<close>

fun graft :: "(path \<Rightarrow> node option) \<Rightarrow> node \<Rightarrow> node"
  and graft_children :: "(path \<Rightarrow> node option) \<Rightarrow> nat \<Rightarrow> node list \<Rightarrow> node list" where
  "graft g (Element t a cs) =
     Element t a (graft_children g 0 cs @ (case g [] of Some img \<Rightarrow> [img] | None \<Rightarrow> []))"
| "graft g (Text s) = Text s"
| "graft_children g i [] = []"
| "graft_children g i (c # cs) = graft (\<lambda>q. g (i # q)) c # graft_children g (Suc i) cs"

fun place ::
  "(path \<Rightarrow> node option) \<Rightarrow> (path \<times> node option promise \<times> string list) list \<Rightarrow> path \<Rightarrow> node option" where
  "place g [] = g"
| "place g ((q, result, logged) # us) =
     place (case result of Inr (Some img) \<Rightarrow> g(q \<mapsto> img) | _ \<Rightarrow> g) us"

text \<open>The promises of one call of \<open>transform\<close> on a document with the given body.\<close>

definition accepted ::
  "environment \<Rightarrow> params \<Rightarrow> node \<Rightarrow> (path \<times> node option promise \<times> string list) list" where
  "accepted env ps body = fst (walk (addBlurryPlaceholder env ps) [([], body)] 0 [])"

text \<open>A template element in a subtree.\<close>

fun contains_template :: "node \<Rightarrow> bool" where
  "contains_template (Element t a cs) = (t = ''template'' \<or> (\<exists>c \<in> set cs. contains_template c))"
| "contains_template (Text s) = False"

text \<open>
  The element that a settled unit hands to its callback, as a list: empty when the unit
  has failed. \<open>extra\<close> is this list for the unit of a node, empty when the policy
  refuses the node.
\<close>

definition placeholder_of :: "node option promise \<times> string list \<Rightarrow> node list" where
  "placeholder_of u = (case fst u of Inr (Some img) \<Rightarrow> [img] | _ \<Rightarrow> [])"

definition extra :: "environment \<Rightarrow> params \<Rightarrow> node \<Rightarrow> node list" where
  "extra env ps n =
     (case candidate n of Some s \<Rightarrow> placeholder_of (addBlurryPlaceholder env ps s) | None \<Rightarrow> [])"

text \<open>
  The document in which every node that the policy accepts has received the element of
  its unit as last child: what one run builds when the cap does not stop it and no
  template is in the way.
\<close>

fun decorate :: "environment \<Rightarrow> params \<Rightarrow> node \<Rightarrow> node" where
  "decorate env ps (Element t a cs) =
     Element t a (map (decorate env ps) cs @
       (case candidate (Element t a cs) of
          Some s \<Rightarrow> placeholder_of (addBlurryPlaceholder env ps s)
        | None \<Rightarrow> []))"
| "decorate env ps (Text s) = Text s"

text \<open>The element that the unit of the node at a path yields, if there is one.\<close>

definition wish :: "environment \<Rightarrow> params \<Rightarrow> node \<Rightarrow> path \<Rightarrow> node option" where
  "wish env ps t p =
     (case node_at t p of
        None \<Rightarrow> None
      | Some n \<Rightarrow>
         (case candidate n of
            None \<Rightarrow> None
          | Some s \<Rightarrow> (case fst (addBlurryPlaceholder env ps s) of Inr (Some img) \<Rightarrow> Some img | _ \<Rightarrow> None)))"

text \<open>The number of nodes of a subtree that the policy accepts.\<close>

fun count :: "node \<Rightarrow> nat" where
  "count (Element t a cs) =
     (if candidate (Element t a cs) = None then 0 else 1) + sum_list (map count cs)"
| "count (Text s) = 0"

section \<open>Example inputs\<close>

text \<open>
  Two platforms for the examples below. On both, the working directory is \<open>/site\<close>
  and the parser accepts no URL. The decoder of the first one reads no file; the decoder of
  the second one reads every file but \<open>/site/img/broken.jpg\<close>.
\<close>

definition failing_decoder :: environment where
  "failing_decoder =
    \<lparr>url_parse = (\<lambda>url base. Inl (TypeError ''Invalid URL'')),
     cwd = ''/site'',
     jimp_read = (\<lambda>path. Inl (Error ''Could not find MIME for Buffer'')),
     jimp_resize = (\<lambda>image w h. Inr image),
     jimp_getBase64Async = (\<lambda>image mime. Inr ''data:image/png;base64,AAAA'')\<rparr>"

definition working_decoder :: environment where
  "working_decoder =
    \<lparr>url_parse = (\<lambda>url base. Inl (TypeError ''Invalid URL'')),
     cwd = ''/site'',
     jimp_read = (\<lambda>path. if path = ''/site/img/broken.jpg''
                            then Inl (Error ''Could not find MIME for Buffer'')
                            else Inr \<lparr>bitmap_width = 100, bitmap_height = 100, pixels = path\<rparr>),
     jimp_resize = (\<lambda>image w h. Inr \<lparr>bitmap_width = 8, bitmap_height = 8, pixels = pixels image\<rparr>),
     jimp_getBase64Async = (\<lambda>image mime. Inr ''data:image/png;base64,AAAA'')\<rparr>"

definition site_params :: params where
  "site_params = \<lparr>imageBasePath = Some ''img''\<rparr>"


text \<open>Documents for the examples: a responsive image, and a page around a body.\<close>

definition responsive_image :: "string \<Rightarrow> node" where
  "responsive_image s = Element ''amp-img'' [(''src'', s), (''layout'', ''responsive'')] []"

definition page :: "node \<Rightarrow> node" where
  "page body = Element ''root'' [] [Element ''html'' [] [Element ''head'' [] [], body]]"

definition eight_images :: node where
  "eight_images = Element ''body'' []
     [responsive_image ''1.jpg'', responsive_image ''2.jpg'', responsive_image ''3.jpg'',
      responsive_image ''4.jpg'', responsive_image ''5.jpg'', responsive_image ''6.jpg'',
      responsive_image ''7.jpg'', responsive_image ''8.jpg'']"

definition two_templates :: node where
  "two_templates = Element ''body'' []
     [Element ''template'' [] [],
      Element ''template'' [] [responsive_image ''a.jpg'']]"

definition broken_and_sound :: node where
  "broken_and_sound = Element ''body'' [] [responsive_image ''broken.jpg'', responsive_image ''a.jpg'']"

text \<open>
  A body with six qualifying images on the same file, and an image that has a child.
\<close>

definition six_images :: node where
  "six_images = Element ''body'' []
     [responsive_image ''a.jpg'', responsive_image ''a.jpg'', responsive_image ''a.jpg'',
      responsive_image ''a.jpg'', responsive_image ''a.jpg'', responsive_image ''a.jpg'']"

definition with_child :: "node \<Rightarrow> node" where
  "with_child c = Element ''amp-img'' [(''src'', ''a.jpg''), (''layout'', ''responsive'')] [c]"

text \<open>A body with an empty template followed by six qualifying images.\<close>

definition template_then_six :: node where
  "template_then_six = Element ''body'' []
     [Element ''template'' [] [],
      responsive_image ''1.jpg'', responsive_image ''2.jpg'', responsive_image ''3.jpg'',
      responsive_image ''4.jpg'', responsive_image ''5.jpg'', responsive_image ''6.jpg'']"

section \<open>The qualification policy\<close>

lemma placeholder_child_iff:
  "placeholder_child c \<longleftrightarrow> (\<exists>t a cs v. c = Element t a cs \<and> (''placeholder'', v) \<in> set a)"
proof (cases c)
  case (Element t a cs)
  have "map_of a ''placeholder'' \<noteq> None \<longleftrightarrow> (\<exists>v. (''placeholder'', v) \<in> set a)"
    by (force simp: map_of_eq_None_iff)
  then show ?thesis using Element by (simp add: placeholder_child_def attr_def)
next
  case (Text s)
  then show ?thesis by (simp add: placeholder_child_def)
qed

lemma hasPlaceholder_iff:
  "hasPlaceholder node \<longleftrightarrow>
     (\<exists>t a cs v. Element t a cs \<in> set (childNodes node) \<and> (''placeholder'', v) \<in> set a)"
proof -
  have "hasPlaceholder node \<longleftrightarrow> (\<exists>c \<in> set (childNodes node). placeholder_child c)"
    by (auto simp: hasPlaceholder_def find_None_iff)
  then show ?thesis unfolding placeholder_child_iff by blast
qed

lemma shouldAdd_iff:
  "shouldAddBlurryPlaceholder node src tag \<longleftrightarrow>
     (\<exists>s. src = Some s \<and> s \<noteq> []
        \<and> \<not> hasPlaceholder node
        \<and> (endsWith s ''.jpg'' \<or> endsWith s ''jpeg'')
        \<and> \<not> (tag = Some ''amp-img'' \<and> attr node ''noloading'' \<noteq> None)
        \<and> (tag = Some ''amp-video'' \<or> tag = Some ''amp-img'' \<and> attr node ''layout'' = Some ''responsive''))"
  by (cases src) (auto simp: shouldAddBlurryPlaceholder_def Let_def)

lemma png_is_no_jpeg: "endsWith s ''.png'' \<Longrightarrow> \<not> endsWith s ''.jpg'' \<and> \<not> endsWith s ''jpeg''"
  by (auto simp: endsWith_def suffix_def)

lemma image_reference_cases:
  "image_reference node =
     (if tagName node = Some ''amp-img'' then attr node ''src''
      else if tagName node = Some ''amp-video'' \<and> truthy (attr node ''poster'') then attr node ''poster''
      else None)"
  by (auto simp: image_reference_def Let_def)

text \<open>
  Claim C6. \<open>shouldAddBlurryPlaceholder_\<close> accepts exactly when its five tests pass, in
  the order of its early returns: the reference is defined and not empty; the node has
  no child with a \<open>placeholder\<close> attribute; the reference ends in \<open>.jpg\<close> or \<open>jpeg\<close>, as
  a case-sensitive suffix; the node is not an \<open>amp-img\<close> with a \<open>noloading\<close> attribute;
  the node is an \<open>amp-video\<close>, or an \<open>amp-img\<close> whose \<open>layout\<close> is \<open>responsive\<close>. The loop
  body calls it with \<open>src\<close> of an \<open>amp-img\<close> or a non-empty \<open>poster\<close> of an \<open>amp-video\<close>. A
  reference that ends in \<open>.png\<close> is never accepted.
\<close>

theorem C6_qualification_policy:
  "(shouldAddBlurryPlaceholder node src tag \<longleftrightarrow>
     (\<exists>s. src = Some s \<and> s \<noteq> []
        \<and> \<not> hasPlaceholder node
        \<and> (endsWith s ''.jpg'' \<or> endsWith s ''jpeg'')
        \<and> \<not> (tag = Some ''amp-img'' \<and> attr node ''noloading'' \<noteq> None)
        \<and> (tag = Some ''amp-video'' \<or> tag = Some ''amp-img'' \<and> attr node ''layout'' = Some ''responsive'')))
   \<and> (qualifies node \<longleftrightarrow>
        shouldAddBlurryPlaceholder node
          (if tagName node = Some ''amp-img'' then attr node ''src''
           else if tagName node = Some ''amp-video'' \<and> truthy (attr node ''poster'') then attr node ''poster''
           else None)
          (tagName node))
   \<and> (endsWith s ''.png'' \<longrightarrow> \<not> shouldAddBlurryPlaceholder node (Some s) tag)"
  using shouldAdd_iff[of node src tag] shouldAdd_iff[of node "Some s" tag] png_is_no_jpeg[of s]
  by (simp add: qualifies_def image_reference_cases)

lemmas policy_defs = qualifies_def shouldAddBlurryPlaceholder_def image_reference_def attr_def
  hasPlaceholder_def placeholder_child_def endsWith_def suffix_to_prefix truthy_def candidate_def

text \<open>
  A responsive \<open>amp-img\<close> on \<open>a.jpg\<close> qualifies; the same element on \<open>a.png\<close> is
  refused.
\<close>

theorem C6_witness:
  "qualifies (Element ''amp-img'' [(''src'', ''a.jpg''), (''layout'', ''responsive'')] [])
   \<and> \<not> shouldAddBlurryPlaceholder (Element ''amp-img'' [(''src'', ''a.png''), (''layout'', ''responsive'')] []) (Some ''a.png'') (Some ''amp-img'')"
  using C6_qualification_policy[of "Element ''amp-img'' [(''src'', ''a.jpg''), (''layout'', ''responsive'')] []" "Some ''a.jpg''" "Some ''amp-img''" "''a.png''"]
   C6_qualification_policy[of "Element ''amp-img'' [(''src'', ''a.png''), (''layout'', ''responsive'')] []" "Some ''a.png''" "Some ''amp-img''" "''a.png''"]
  by (simp add: attr_def hasPlaceholder_def endsWith_def suffix_to_prefix)

text \<open>
  Claim C10. \<open>hasPlaceholder_\<close> holds exactly when some child is an element, of any
  tag, whose attribute table has the key \<open>placeholder\<close>, whatever its value and whatever
  the other attributes of the child; such a node is refused, whatever its reference
  and tag name.
\<close>

theorem C10_existing_placeholder_blocks:
  "(hasPlaceholder node \<longleftrightarrow>
      (\<exists>t a cs v. Element t a cs \<in> set (childNodes node) \<and> (''placeholder'', v) \<in> set a))
   \<and> (hasPlaceholder node \<longrightarrow>
        \<not> shouldAddBlurryPlaceholder node src tag \<and> \<not> qualifies node \<and> candidate node = None)"
  using hasPlaceholder_iff[of node] by (simp add: shouldAdd_iff candidate_def qualifies_def)

text \<open>
  An \<open>amp-img\<close> that would qualify, but for a \<open>div\<close> child with an empty \<open>placeholder\<close>
  attribute and no class.
\<close>

theorem C10_witness:
  "hasPlaceholder (Element ''amp-img'' [(''src'', ''a.jpg''), (''layout'', ''responsive'')]
       [Element ''div'' [(''placeholder'', '''')] []])
   \<and> candidate (Element ''amp-img'' [(''src'', ''a.jpg''), (''layout'', ''responsive'')]
       [Element ''div'' [(''placeholder'', '''')] []]) = None"
  using C10_existing_placeholder_blocks[of "Element ''amp-img'' [(''src'', ''a.jpg''), (''layout'', ''responsive'')]
       [Element ''div'' [(''placeholder'', '''')] []]" "Some ''a.jpg''" "Some ''amp-img''"]
  by simp


section \<open>Path resolution\<close>

lemma resolvePath_Inr: "\<exists>s. resolvePath env base path = Inr s"
  by (simp add: resolvePath_def split: sum.splits)

text \<open>
  A base without a scheme sends every path to the \<open>catch\<close> block, and the empty base
  has none.
\<close>

lemma resolvePath_file:
  assumes "\<not> has_scheme (url_input base)"
  shows "resolvePath env base path = Inr (path_resolve (cwd env) (path_join base path))"
  using assms by (simp add: resolvePath_def URL_toString_def)

lemma resolvePath_url:
  assumes "has_scheme (url_input base)" "url_parse env path base = Inr href"
  shows "resolvePath env base path = Inr href"
  using assms by (simp add: resolvePath_def URL_toString_def)

lemma empty_base_no_scheme: "\<not> has_scheme (url_input [])"
  by (simp add: has_scheme_def url_input_def)

text \<open>The \<open>catch\<close> block returns an absolute path when the working directory is one.\<close>

lemma path_resolve_absolute:
  assumes "absolute dir"
  shows "absolute (path_resolve dir path)"
  using assms by (simp add: path_resolve_def absolute_def Let_def)

lemmas path_defs = path_join_def path_resolve_def path_normalize_def normalizeString_def absolute_def

lemmas url_defs = has_scheme_def url_input_def c0_control_or_space_def tab_or_newline_def
  ascii_alpha_def ascii_digit_def

lemma resolvePath_site:
  "resolvePath working_decoder ''img'' ''a.jpg'' = Inr ''/site/img/a.jpg''"
  "resolvePath working_decoder ''img'' ''broken.jpg'' = Inr ''/site/img/broken.jpg''"
  by (simp_all add: resolvePath_def URL_toString_def url_defs path_defs working_decoder_def)

lemma working_decoder_simps:
  "jimp_read working_decoder p =
     (if p = ''/site/img/broken.jpg'' then Inl (Error ''Could not find MIME for Buffer'')
      else Inr \<lparr>bitmap_width = 100, bitmap_height = 100, pixels = p\<rparr>)"
  "jimp_resize working_decoder im w h =
     Inr \<lparr>bitmap_width = 8, bitmap_height = 8, pixels = pixels im\<rparr>"
  "jimp_getBase64Async working_decoder im mime = Inr ''data:image/png;base64,AAAA''"
  by (simp_all add: working_decoder_def)

text \<open>
  Claim C9 fails on the code for a base that is not a URL itself, such as the empty
  base that \<open>getDataURI_\<close> passes when the option is not set. The reference
  \<open>https://example.com/a.jpg\<close> is a valid absolute URL, but the constructor rejects the
  empty base before it looks at the reference: the \<open>catch\<close> block runs and the
  reference is joined and resolved as a file path under the working directory.
\<close>

theorem C9_url_resolved_as_file:
  "resolvePath env [] ''https://example.com/a.jpg'' =
     Inr (path_resolve (cwd env) ''https:/example.com/a.jpg'')
   \<and> path_resolve ''/site'' ''https:/example.com/a.jpg'' = ''/site/https:/example.com/a.jpg''"
  by (simp add: resolvePath_def URL_toString_def url_defs path_defs)

section \<open>Rounding to a Number\<close>

text \<open>
  Rounding to the even neighbour moves a real by at most one half, is monotone and
  leaves integers alone.
\<close>

lemma round_even_bounds: "\<lfloor>y\<rfloor> \<le> round_even y" "round_even y \<le> \<lfloor>y\<rfloor> + 1"
  by (simp_all add: round_even_def Let_def)

lemma round_even_error: "\<bar>of_int (round_even y) - y\<bar> \<le> 1 / 2"
  unfolding round_even_def Let_def by (auto; linarith)

lemma round_even_of_int [simp]: "round_even (of_int n) = n"
  by (simp add: round_even_def)

lemma round_even_unique:
  assumes "\<bar>y - of_int m\<bar> < 1 / 2"
  shows "round_even y = m"
proof -
  have "\<bar>of_int (round_even y) - (of_int m :: real)\<bar> < 1"
    using round_even_error[of y] assms by linarith
  then have "\<bar>round_even y - m\<bar> < 1"
    by (metis of_int_abs of_int_diff of_int_less_1_iff)
  then show ?thesis by linarith
qed

lemma round_even_mono:
  assumes "y \<le> z"
  shows "round_even y \<le> round_even z"
proof (cases "\<lfloor>y\<rfloor> = \<lfloor>z\<rfloor>")
  case True
  then show ?thesis using assms by (auto simp add: round_even_def Let_def)
next
  case False
  then have "\<lfloor>y\<rfloor> + 1 \<le> \<lfloor>z\<rfloor>" using floor_mono[OF assms] by linarith
  then show ?thesis using round_even_bounds(2)[of y] round_even_bounds(1)[of z] by linarith
qed

lemma round_even_ge: "of_int n \<le> y \<Longrightarrow> n \<le> round_even y"
  using round_even_mono[of "of_int n" y] by simp

lemma round_even_le: "y \<le> of_int n \<Longrightarrow> round_even y \<le> n"
  using round_even_mono[of y "of_int n"] by simp

text \<open>
  The exponent of a positive real, and the rounding of a real of a known exponent.
\<close>

lemma powr_two: "(2::real) powr real_of_int e = 2 powi e"
  by (rule powr_real_of_int') simp_all

lemma powr_two_Suc: "(2::real) powr (real_of_int e + 1) = 2 powi (e + 1)"
  using powr_two[of "e + 1"] by simp

lemma floor_log2:
  assumes "2 powi e \<le> x" "x < 2 powi (e + 1)"
  shows "\<lfloor>log 2 x\<rfloor> = e"
proof -
  have pos: "0 < x" using assms(1) zero_less_power_int[of "2::real" e] by linarith
  show ?thesis using assms floor_log_eq_powr_iff[of x 2 e] pos by (simp add: powr_two powr_two_Suc)
qed

lemma log2_bracket:
  assumes "0 < x"
  shows "2 powi \<lfloor>log 2 x\<rfloor> \<le> x" "x < 2 powi (\<lfloor>log 2 x\<rfloor> + 1)"
  using floor_log_eq_powr_iff[of x 2 "\<lfloor>log 2 x\<rfloor>"] assms
  by (simp_all add: powr_two powr_two_Suc)

lemma ulp_exponent_normal:
  assumes "2 powi e \<le> x" "x < 2 powi (e + 1)" "- 1022 \<le> e"
  shows "ulp_exponent x = e - 52"
  using floor_log2[OF assms(1,2)] assms(3) by (simp add: ulp_exponent_def)

lemma nearest_eval:
  assumes "2 powi e \<le> x" "x < 2 powi (e + 1)" "- 1022 \<le> e"
    and "\<bar>x / 2 powi (e - 52) - of_int m\<bar> < 1 / 2"
  shows "nearest x = of_int m * 2 powi (e - 52)"
  unfolding nearest_def ulp_exponent_normal[OF assms(1,2,3)] round_even_unique[OF assms(4)] ..

text \<open>
  From \<open>2 powi - 1022\<close> on, rounding changes a real by at most its \<open>2 ^ 53\<close>-th part.
\<close>

lemma nearest_error:
  assumes "2 powi (- 1022) \<le> x"
  shows "\<bar>nearest x - x\<bar> \<le> x / 2 ^ 53"
proof -
  have pos: "0 < x" using assms zero_less_power_int[of "2::real" "- 1022"] by linarith
  define e where "e = \<lfloor>log 2 x\<rfloor>"
  have br: "2 powi e \<le> x" "x < 2 powi (e + 1)" unfolding e_def by (rule log2_bracket[OF pos])+
  have e: "- 1022 \<le> e"
  proof (rule ccontr)
    assume "\<not> - 1022 \<le> e"
    then have "e + 1 \<le> - 1022" by simp
    then have "(2::real) powi (e + 1) \<le> 2 powi (- 1022)" by (intro power_int_increasing) simp_all
    then show False using br(2) assms by linarith
  qed
  define u :: real where "u = 2 powi (e - 52)"
  have u: "0 < u" by (simp add: u_def)
  have ue: "u * 2 ^ 52 = 2 powi e"
    unfolding u_def by (simp add: power_int_diff)
  have n: "nearest x = of_int (round_even (x / u)) * u"
    unfolding nearest_def ulp_exponent_normal[OF br e] u_def ..
  have "of_int (round_even (x / u)) * u - x = (of_int (round_even (x / u)) - x / u) * u"
    using u by (simp add: field_simps)
  then have "\<bar>of_int (round_even (x / u)) * u - x\<bar> = \<bar>of_int (round_even (x / u)) - x / u\<bar> * u"
    using u by (simp add: abs_mult)
  also have "\<dots> \<le> (1 / 2) * u"
    using round_even_error[of "x / u"] u by (intro mult_right_mono) simp_all
  also have "\<dots> = 2 powi e / 2 ^ 53" unfolding ue[symmetric] by simp
  also have "\<dots> \<le> x / 2 ^ 53" using br(1) by (simp add: divide_right_mono)
  finally show ?thesis unfolding n .
qed

text \<open>
  Rounding is monotone on the positive reals.
\<close>

lemma nearest_mono:
  assumes "0 < x" "x \<le> y"
  shows "nearest x \<le> nearest y"
proof -
  have y: "0 < y" using assms by simp
  define ex where "ex = max \<lfloor>log 2 x\<rfloor> (- 1022)"
  define ey where "ey = max \<lfloor>log 2 y\<rfloor> (- 1022)"
  have ux: "ulp_exponent x = ex - 52" and uy: "ulp_exponent y = ey - 52"
    by (simp_all add: ulp_exponent_def ex_def ey_def)
  have "log 2 x \<le> log 2 y" using assms by simp
  then have le: "ex \<le> ey" unfolding ex_def ey_def using floor_mono[of "log 2 x" "log 2 y"] by linarith
  show ?thesis
  proof (cases "ex = ey")
    case True
    have "x / 2 powi (ey - 52) \<le> y / 2 powi (ey - 52)"
      using assms(2) by (simp add: divide_right_mono)
    then have "round_even (x / 2 powi (ey - 52)) \<le> round_even (y / 2 powi (ey - 52))"
      by (rule round_even_mono)
    then show ?thesis unfolding nearest_def ux uy True
      by (intro mult_right_mono) simp_all
  next
    case False
    then have lt: "ex + 1 \<le> ey" using le by simp
    have "x < 2 powi (\<lfloor>log 2 x\<rfloor> + 1)" by (rule log2_bracket(2)[OF assms(1)])
    also have "\<dots> \<le> 2 powi (ex + 1)" by (intro power_int_increasing) (simp_all add: ex_def)
    finally have xb: "x < 2 powi (ex + 1)" .
    have "(2::real) powi (ex + 1) = 2 ^ 53 * 2 powi (ex - 52)"
      by (simp add: power_int_diff power_int_add)
    then have "x / 2 powi (ex - 52) \<le> of_int (2 ^ 53)"
      using xb by (simp add: field_simps)
    then have "round_even (x / 2 powi (ex - 52)) \<le> 2 ^ 53" by (rule round_even_le)
    then have "of_int (round_even (x / 2 powi (ex - 52))) \<le> (2 ^ 53 :: real)"
      by (metis of_int_le_iff of_int_numeral of_int_power)
    then have "nearest x \<le> 2 ^ 53 * 2 powi (ex - 52)"
      unfolding nearest_def ux by (intro mult_right_mono) simp_all
    also have "\<dots> = 2 powi (ex + 1)" by (simp add: power_int_diff power_int_add)
    also have "\<dots> \<le> 2 powi ey" using lt by (intro power_int_increasing) simp_all
    finally have nx: "nearest x \<le> 2 powi ey" .
    have "- 1022 < ey" using lt by (simp add: ex_def)
    then have eyf: "ey = \<lfloor>log 2 y\<rfloor>" by (simp add: ey_def max_def split: if_splits)
    have yb: "2 powi ey \<le> y" unfolding eyf by (rule log2_bracket(1)[OF y])
    have "(2::real) powi ey = 2 ^ 52 * 2 powi (ey - 52)"
      by (simp add: power_int_diff)
    then have "of_int (2 ^ 52) \<le> y / 2 powi (ey - 52)"
      using yb by (simp add: field_simps)
    then have "2 ^ 52 \<le> round_even (y / 2 powi (ey - 52))" by (rule round_even_ge)
    then have "(2 ^ 52 :: real) \<le> of_int (round_even (y / 2 powi (ey - 52)))"
      by (metis of_int_le_iff of_int_numeral of_int_power)
    then have "2 ^ 52 * 2 powi (ey - 52) \<le> nearest y"
      unfolding nearest_def uy by (intro mult_right_mono) simp_all
    then have "2 powi ey \<le> nearest y" by (simp add: power_int_diff)
    then show ?thesis using nx by linarith
  qed
qed

text \<open>
  The Numbers that the bounds of the ratio are rounded to.
\<close>

lemma nearest_240: "nearest 240 = 240"
  using nearest_eval[of 7 240 "240 * 2 ^ 45"] by simp

lemma nearest_120: "nearest 120 = 120"
  using nearest_eval[of 6 120 "120 * 2 ^ 46"] by simp

lemma nearest_quarter: "nearest (1 / 4) = 1 / 4"
  using nearest_eval[of "- 2" "1 / 4" "2 ^ 52"] by simp

lemma nearest_half: "nearest (1 / 2) = 1 / 2"
  using nearest_eval[of "- 1" "1 / 2" "2 ^ 52"] by simp

lemma nearest_240th: "nearest (1 / 240) = 4803839602528529 / 2 ^ 60"
  using nearest_eval[of "- 8" "1 / 240" 4803839602528529] by simp

lemma nearest_14400: "nearest (60 / (4803839602528529 / 2 ^ 60)) = 14400"
  using nearest_eval[of 13 "60 / (4803839602528529 / 2 ^ 60)" "14400 * 2 ^ 39"] by simp

lemma nearest_zero [simp]: "nearest 0 = 0"
  using round_even_of_int[of 0] by (simp add: nearest_def)

lemma to_double_zero [simp]: "to_double 0 = Fin 0"
  by (simp add: to_double_def zero_of_def)

text \<open>In the range of the intermediate values nothing overflows or underflows.\<close>

lemma to_double_moderate:
  assumes "1 / 2 ^ 100 \<le> x" "x \<le> 2 ^ 100"
  shows "to_double x = Fin (nearest x)" "\<bar>nearest x - x\<bar> \<le> x / 2 ^ 53" "0 < nearest x"
proof -
  have pos: "0 < x" using assms(1) by (rule less_le_trans[rotated]) simp
  have "(2::real) powi (- 1022) \<le> 2 powi (- 100)" by (intro power_int_increasing) simp_all
  also have "\<dots> = 1 / 2 ^ 100" by (simp add: power_int_minus inverse_eq_divide)
  finally have "2 powi (- 1022) \<le> x" using assms(1) by linarith
  then show err: "\<bar>nearest x - x\<bar> \<le> x / 2 ^ 53" by (rule nearest_error)
  have "x / 2 ^ 53 \<le> x / 2" using pos by (intro divide_left_mono) simp_all
  then have lo: "x / 2 \<le> nearest x" and hi: "nearest x \<le> 2 * x" using err pos by linarith+
  show n: "0 < nearest x" using lo pos by linarith
  have "2 * x \<le> 2 * 2 ^ 100" using assms(2) by simp
  also have "\<dots> < (2 ^ 1024 :: real)" by simp
  finally have "nearest x < 2 ^ 1024" using hi by linarith
  then show "to_double x = Fin (nearest x)"
    using n pos by (simp add: to_double_def Let_def)
qed

lemma div_moderate:
  assumes "0 < a" "0 < b" "1 / 2 ^ 100 \<le> a / b" "a / b \<le> 2 ^ 100"
  shows "js_div (Fin a) (Fin b) = Fin (nearest (a / b))"
  using assms to_double_moderate(1)[OF assms(3,4)] by (simp add: js_div_def)

lemma sqrt_moderate:
  assumes "1 / 2 ^ 100 \<le> x" "x \<le> 2 ^ 100"
  shows "js_sqrt (Fin x) = Fin (nearest (sqrt x))"
proof -
  have pos: "0 < x" using assms(1) by (rule less_le_trans[rotated]) simp
  have "(1 / 2 ^ 100 :: real)\<^sup>2 \<le> 1 / 2 ^ 100" by (simp add: power2_eq_square)
  then have "(1 / 2 ^ 100)\<^sup>2 \<le> x" using assms(1) by linarith
  then have lo: "1 / 2 ^ 100 \<le> sqrt x" by (rule real_le_rsqrt)
  have "(2 ^ 100 :: real) \<le> (2 ^ 100)\<^sup>2" by (simp add: power2_eq_square)
  then have "x \<le> (2 ^ 100)\<^sup>2" using assms(2) by linarith
  then have hi: "sqrt x \<le> 2 ^ 100" by (intro real_le_lsqrt) (use pos in simp_all)
  show ?thesis using pos to_double_moderate(1)[OF lo hi] by simp
qed

text \<open>
  Relative errors through a quotient, a square root and two steps in a row.
\<close>

lemma close_range:
  fixes x :: real
  assumes "\<bar>x' - x\<bar> \<le> x / 2 ^ 53" "0 < x"
  shows "x / 2 \<le> x'" "x' \<le> 2 * x"
proof -
  have "x / 2 ^ 53 \<le> x / 2" using assms(2) by (intro divide_left_mono) simp_all
  then show "x / 2 \<le> x'" "x' \<le> 2 * x" using assms by linarith+
qed

lemma close_div:
  fixes x y c k :: real
  assumes "0 < y" "\<bar>x - y\<bar> \<le> k * y" "0 \<le> k" "k \<le> 1 / 2" "0 < c"
  shows "\<bar>c / x - c / y\<bar> \<le> 2 * k * (c / y)"
proof -
  have "k * y \<le> (1 / 2) * y" using assms by (intro mult_right_mono) simp_all
  then have x: "y / 2 \<le> x" using assms(2) by linarith
  then have xp: "0 < x" using assms(1) by linarith
  have "c / x - c / y = c * (y - x) / (x * y)"
    using xp assms(1) by (simp add: field_simps)
  then have "\<bar>c / x - c / y\<bar> = c * \<bar>y - x\<bar> / (x * y)"
    using xp assms(1,5) by (simp add: abs_mult)
  also have "\<dots> \<le> c * (k * y) / (x * y)"
    using assms xp by (intro divide_right_mono mult_left_mono) simp_all
  also have "\<dots> = c * k / x" using assms(1) by simp
  also have "\<dots> \<le> c * k / (y / 2)"
    using assms x by (intro divide_left_mono) simp_all
  also have "\<dots> = 2 * k * (c / y)" by simp
  finally show ?thesis .
qed

lemma close_sqrt:
  fixes x y k :: real
  assumes "0 < y" "\<bar>x - y\<bar> \<le> k * y" "0 \<le> k" "k \<le> 1"
  shows "\<bar>sqrt x - sqrt y\<bar> \<le> k * sqrt y"
proof -
  have "k * y \<le> 1 * y" using assms by (intro mult_right_mono) simp_all
  then have x: "0 \<le> x" using assms(2) by linarith
  define s where "s = sqrt x"
  define t where "t = sqrt y"
  have s: "0 \<le> s" and t: "0 < t" using x assms(1) by (simp_all add: s_def t_def)
  have sq: "s * s = x" "t * t = y" using x assms(1) by (simp_all add: s_def t_def)
  have "\<bar>s - t\<bar> * t \<le> \<bar>s - t\<bar> * (s + t)"
    using s by (intro mult_left_mono) simp_all
  also have "\<dots> = \<bar>(s - t) * (s + t)\<bar>" using s t by (simp add: abs_mult)
  also have "(s - t) * (s + t) = x - y" by (simp add: algebra_simps sq)
  also have "\<bar>x - y\<bar> \<le> k * t * t" using assms(2) by (simp add: sq mult.assoc)
  finally have "\<bar>s - t\<bar> * t \<le> (k * t) * t" .
  then show ?thesis using t unfolding s_def[symmetric] t_def[symmetric]
    by (simp only: mult_le_cancel_right_pos)
qed

lemma close_trans:
  fixes x y z j k :: real
  assumes "\<bar>x - y\<bar> \<le> j * y" "\<bar>y - z\<bar> \<le> k * z" "0 \<le> j" "j \<le> 1" "0 \<le> k" "0 < z"
  shows "\<bar>x - z\<bar> \<le> (j + 2 * k) * z"
proof -
  have y: "y \<le> z + k * z" using assms(2) by linarith
  have kz: "0 \<le> k * z" using assms by simp
  have "j * y \<le> j * (z + k * z)" using y assms(3) by (rule mult_left_mono)
  also have "\<dots> = j * z + j * (k * z)" by (simp add: algebra_simps)
  also have "j * (k * z) \<le> 1 * (k * z)" using assms(4) kz by (rule mult_right_mono)
  finally have "j * y \<le> j * z + k * z" by simp
  then have "\<bar>x - z\<bar> \<le> j * z + k * z + k * z" using assms(1,2) by linarith
  then show ?thesis by (simp add: algebra_simps)
qed

section \<open>The sides of the thumbnail\<close>

lemma ideal_sides:
  assumes "0 < (r::real)"
  shows "60 / sqrt (60 / r) = sqrt (60 * r)"
    and "sqrt (60 * r) * sqrt (60 / r) = 60"
    and "sqrt (60 * r) / sqrt (60 / r) = r"
proof -
  have p: "sqrt (60 * r) * sqrt (60 / r) = 60"
  proof -
    have "sqrt (60 * r) * sqrt (60 / r) = sqrt ((60 * r) * (60 / r))"
      by (simp only: real_sqrt_mult)
    also have "(60 * r) * (60 / r) = 60\<^sup>2" using assms by (simp add: power2_eq_square)
    also have "sqrt (60\<^sup>2) = (60::real)" by simp
    finally show ?thesis .
  qed
  have s: "0 < sqrt (60 / r)" using assms by simp
  show "sqrt (60 * r) * sqrt (60 / r) = 60" by (rule p)
  have "sqrt (60 * r) * sqrt (60 / r) / sqrt (60 / r) = sqrt (60 * r)"
    using s by (intro nonzero_mult_div_cancel_right) auto
  then show "60 / sqrt (60 / r) = sqrt (60 * r)"
    unfolding p .
  have "sqrt (60 * r) / sqrt (60 / r) = sqrt ((60 * r) / (60 / r))"
    by (simp only: real_sqrt_divide)
  also have "(60 * r) / (60 / r) = r\<^sup>2" using assms by (simp add: power2_eq_square)
  also have "sqrt (r\<^sup>2) = r" using assms by simp
  finally show "sqrt (60 * r) / sqrt (60 / r) = r" .
qed

lemma js_round_nonneg: "0 \<le> x \<Longrightarrow> js_round (Fin x) = Fin (of_int (round x))"
  by simp

text \<open>
  The four operations of \<open>getBitmapDimensions_\<close> on sides from 1 to \<open>2 ^ 53\<close>: nothing
  overflows or underflows, and the Numbers computed for the two sides have the
  relative errors \<open>11 / 2 ^ 53\<close> and \<open>45 / 2 ^ 53\<close> at most.
\<close>

lemma sizing:
  fixes a b :: real
  assumes a: "1 \<le> a" "a \<le> 2 ^ 53" and b: "1 \<le> b" "b \<le> 2 ^ 53"
  defines "r' \<equiv> nearest (a / b)"
  defines "q' \<equiv> nearest (60 / r')"
  defines "b' \<equiv> nearest (sqrt q')"
  defines "a' \<equiv> nearest (60 / b')"
  shows "getBitmapDimensions (Fin a) (Fin b) =
           Inr \<lparr>width = Fin (of_int (round a')), height = Fin (of_int (round b'))\<rparr>"
    and "0 < r'" "0 < q'" "0 < b'" "0 < a'"
    and "\<bar>b' - sqrt (60 / (a / b))\<bar> \<le> 11 / 2 ^ 53 * sqrt (60 / (a / b))"
    and "\<bar>a' - sqrt (60 * (a / b))\<bar> \<le> 45 / 2 ^ 53 * sqrt (60 * (a / b))"
proof -
  define r where "r = a / b"
  have ap: "0 < a" and bp: "0 < b" using a b by simp_all
  have r_lo: "1 / 2 ^ 53 \<le> r" unfolding r_def using a b by (intro frac_le) simp_all
  have "a / b \<le> 2 ^ 53 / 1" using a b by (intro frac_le) simp_all
  then have r_hi: "r \<le> 2 ^ 53" by (simp add: r_def)
  have rp: "0 < r" using ap bp by (simp add: r_def)
  have r_lo': "1 / 2 ^ 100 \<le> r" using r_lo by (rule order_trans[rotated]) simp
  have r_hi': "r \<le> 2 ^ 100" using r_hi by (rule order_trans) simp
  note m1 = to_double_moderate[OF r_lo' r_hi']
  have e1: "\<bar>r' - r\<bar> \<le> 1 / 2 ^ 53 * r" using m1(2) by (simp add: r'_def r_def)
  have r'p: "0 < r'" using m1(3) by (simp add: r'_def r_def)
  have r'_rng: "r / 2 \<le> r'" "r' \<le> 2 * r"
    using close_range[of r' r] m1(2) rp by (simp_all add: r'_def r_def)
  have d1: "js_div (Fin a) (Fin b) = Fin r'"
    using div_moderate[OF ap bp] r_lo' r_hi' by (simp add: r'_def r_def)
  \<comment> \<open>the quotient of 60 and the ratio\<close>
  define x2 where "x2 = 60 / r'"
  have x2p: "0 < x2" using r'p by (simp add: x2_def)
  have "60 / r' \<le> 60 / (r / 2)" using r'_rng(1) rp by (intro divide_left_mono) simp_all
  also have "\<dots> = 120 / r" by simp
  also have "\<dots> \<le> 120 / (1 / 2 ^ 53)" using r_lo by (intro divide_left_mono) simp_all
  finally have x2_hi: "x2 \<le> 120 * 2 ^ 53" by (simp add: x2_def)
  have "60 / (2 * 2 ^ 53) \<le> 60 / (2 * r)" using r_hi rp by (intro divide_left_mono) simp_all
  also have "\<dots> \<le> 60 / r'" using r'_rng(2) r'p rp by (intro divide_left_mono) simp_all
  finally have x2_lo: "30 / 2 ^ 53 \<le> x2" by (simp add: x2_def)
  have x2_lo': "1 / 2 ^ 100 \<le> x2" using x2_lo by (rule order_trans[rotated]) simp
  have x2_hi': "x2 \<le> 2 ^ 100" using x2_hi by (rule order_trans) simp
  note m2 = to_double_moderate[OF x2_lo' x2_hi']
  have d2: "js_div PIXEL_TARGET (Fin r') = Fin q'"
    using div_moderate[of 60 r'] r'p x2_lo' x2_hi' by (simp add: PIXEL_TARGET_def q'_def x2_def)
  have q'p: "0 < q'" using m2(3) by (simp add: q'_def x2_def)
  have e2: "\<bar>60 / r' - 60 / r\<bar> \<le> 2 * (1 / 2 ^ 53) * (60 / r)"
    using rp e1 by (intro close_div) simp_all
  have e3: "\<bar>q' - x2\<bar> \<le> 1 / 2 ^ 53 * x2" using m2(2) by (simp add: q'_def x2_def)
  have "\<bar>q' - 60 / r\<bar> \<le> (1 / 2 ^ 53 + 2 * (2 * (1 / 2 ^ 53))) * (60 / r)"
    using e3 e2 rp unfolding x2_def by (intro close_trans) simp_all
  then have e4: "\<bar>q' - 60 / r\<bar> \<le> 5 / 2 ^ 53 * (60 / r)" by simp
  have q'_rng: "x2 / 2 \<le> q'" "q' \<le> 2 * x2"
    using close_range[of q' x2] m2(2) x2p by (simp_all add: q'_def x2_def)
  have q'_lo: "1 / 2 ^ 100 \<le> q'" using q'_rng(1) x2_lo by (rule_tac order_trans[of _ "15 / 2 ^ 53"]) simp_all
  have q'_hi: "q' \<le> 2 ^ 100" using q'_rng(2) x2_hi by (rule_tac order_trans[of _ "240 * 2 ^ 53"]) simp_all
  \<comment> \<open>the square root\<close>
  have d3: "js_sqrt (Fin q') = Fin b'"
    using sqrt_moderate[OF q'_lo q'_hi] by (simp add: b'_def)
  define B where "B = sqrt (60 / r)"
  have Bp: "0 < B" using rp by (simp add: B_def)
  have e5: "\<bar>sqrt q' - B\<bar> \<le> 5 / 2 ^ 53 * B"
    unfolding B_def using rp e4 by (intro close_sqrt) simp_all
  have "(1 / 2 ^ 25)\<^sup>2 \<le> (15 / 2 ^ 53 :: real)" by (simp add: power2_eq_square)
  then have "(1 / 2 ^ 25)\<^sup>2 \<le> q'" using q'_rng(1) x2_lo by linarith
  then have s_lo: "1 / 2 ^ 25 \<le> sqrt q'" by (rule real_le_rsqrt)
  have "(240 * 2 ^ 53 :: real) \<le> (2 ^ 31)\<^sup>2" by (simp add: power2_eq_square)
  then have "q' \<le> (2 ^ 31)\<^sup>2" using q'_rng(2) x2_hi by linarith
  then have s_hi: "sqrt q' \<le> 2 ^ 31" by (intro real_le_lsqrt) (use q'p in simp_all)
  have sp: "0 < sqrt q'" using q'p by simp
  have s_lo': "1 / 2 ^ 100 \<le> sqrt q'" using s_lo by (rule order_trans[rotated]) simp
  have s_hi': "sqrt q' \<le> 2 ^ 100" using s_hi by (rule order_trans) simp
  note m3 = to_double_moderate[OF s_lo' s_hi']
  have b'p: "0 < b'" using m3(3) by (simp add: b'_def)
  have e6: "\<bar>b' - sqrt q'\<bar> \<le> 1 / 2 ^ 53 * sqrt q'" using m3(2) by (simp add: b'_def)
  have "\<bar>b' - B\<bar> \<le> (1 / 2 ^ 53 + 2 * (5 / 2 ^ 53)) * B"
    using e6 e5 Bp by (intro close_trans) simp_all
  then have e7: "\<bar>b' - B\<bar> \<le> 11 / 2 ^ 53 * B" by simp
  have b'_rng: "sqrt q' / 2 \<le> b'" "b' \<le> 2 * sqrt q'"
    using close_range[of b' "sqrt q'"] m3(2) sp by (simp_all add: b'_def)
  \<comment> \<open>the quotient of 60 and the square root\<close>
  define x4 where "x4 = 60 / b'"
  have x4p: "0 < x4" using b'p by (simp add: x4_def)
  have b'_lo: "1 / 2 ^ 26 \<le> b'" using b'_rng(1) s_lo by simp
  have b'_hi: "b' \<le> 2 ^ 32" using b'_rng(2) s_hi by simp
  have "60 / b' \<le> 60 / (1 / 2 ^ 26)" using b'_lo by (intro divide_left_mono) simp_all
  then have x4_hi': "x4 \<le> 2 ^ 100" unfolding x4_def by (rule order_trans) simp
  have "60 / 2 ^ 32 \<le> 60 / b'" using b'_hi b'p by (intro divide_left_mono) simp_all
  then have x4_lo': "1 / 2 ^ 100 \<le> x4" unfolding x4_def by (rule order_trans[rotated]) simp
  note m4 = to_double_moderate[OF x4_lo' x4_hi']
  have d4: "js_div PIXEL_TARGET (Fin b') = Fin a'"
    using div_moderate[of 60 b'] b'p x4_lo' x4_hi' by (simp add: PIXEL_TARGET_def a'_def x4_def)
  have a'p: "0 < a'" using m4(3) by (simp add: a'_def x4_def)
  define A where "A = sqrt (60 * r)"
  have Ap: "0 < A" using rp by (simp add: A_def)
  have AB: "60 / B = A" unfolding A_def B_def by (rule ideal_sides(1)[OF rp])
  have "\<bar>60 / b' - 60 / B\<bar> \<le> 2 * (11 / 2 ^ 53) * (60 / B)"
    using Bp e7 by (intro close_div) simp_all
  then have e8: "\<bar>x4 - A\<bar> \<le> 22 / 2 ^ 53 * A" by (simp add: AB x4_def)
  have e9: "\<bar>a' - x4\<bar> \<le> 1 / 2 ^ 53 * x4" using m4(2) by (simp add: a'_def x4_def)
  have "\<bar>a' - A\<bar> \<le> (1 / 2 ^ 53 + 2 * (22 / 2 ^ 53)) * A"
    using e9 e8 Ap by (intro close_trans) simp_all
  then have e10: "\<bar>a' - A\<bar> \<le> 45 / 2 ^ 53 * A" by simp
  have r1: "js_round (Fin a') = Fin (of_int (round a'))" using a'p by simp
  have r2: "js_round (Fin b') = Fin (of_int (round b'))" using b'p by simp
  show "getBitmapDimensions (Fin a) (Fin b) =
           Inr \<lparr>width = Fin (of_int (round a')), height = Fin (of_int (round b'))\<rparr>"
    unfolding getBitmapDimensions_def Let_def d1 d2 d3 d4 r1 r2 ..
  show "0 < r'" "0 < q'" "0 < b'" "0 < a'" by (rule r'p q'p b'p a'p)+
  show "\<bar>b' - sqrt (60 / (a / b))\<bar> \<le> 11 / 2 ^ 53 * sqrt (60 / (a / b))"
    using e7 by (simp add: B_def r_def)
  show "\<bar>a' - sqrt (60 * (a / b))\<bar> \<le> 45 / 2 ^ 53 * sqrt (60 * (a / b))"
    using e10 by (simp add: A_def r_def)
qed

text \<open>
  The bounds 240 and 1/240 of the ratio carried through the four operations: the
  Numbers computed for the sides are at least one half.
\<close>

lemma sizing_height_positive:
  fixes a b :: real
  assumes a: "1 \<le> a" "a \<le> 2 ^ 53" and b: "1 \<le> b" "b \<le> 2 ^ 53" and le: "a \<le> 240 * b"
  shows "1 / 2 \<le> nearest (sqrt (nearest (60 / nearest (a / b))))"
proof -
  note pos = sizing(2,3)[OF a b]
  have r: "0 < a / b" "a / b \<le> 240" using a b le by (simp_all add: field_simps)
  have r': "nearest (a / b) \<le> 240"
    using nearest_mono[OF r] by (simp add: nearest_240)
  have "60 / 240 \<le> 60 / nearest (a / b)"
    using r' pos(1) by (intro divide_left_mono) simp_all
  then have "nearest (1 / 4) \<le> nearest (60 / nearest (a / b))"
    by (intro nearest_mono) simp_all
  then have "(1 / 2)\<^sup>2 \<le> nearest (60 / nearest (a / b))"
    by (simp add: nearest_quarter power2_eq_square)
  then have "1 / 2 \<le> sqrt (nearest (60 / nearest (a / b)))" by (rule real_le_rsqrt)
  then have "nearest (1 / 2) \<le> nearest (sqrt (nearest (60 / nearest (a / b))))"
    by (intro nearest_mono) simp_all
  then show ?thesis by (simp add: nearest_half)
qed

lemma sizing_width_positive:
  fixes a b :: real
  assumes a: "1 \<le> a" "a \<le> 2 ^ 53" and b: "1 \<le> b" "b \<le> 2 ^ 53" and le: "b \<le> 240 * a"
  shows "1 / 2 \<le> nearest (60 / nearest (sqrt (nearest (60 / nearest (a / b)))))"
proof -
  note pos = sizing(2,3,4)[OF a b]
  have r: "1 / 240 \<le> a / b" using a b le by (simp add: field_simps)
  have r': "4803839602528529 / 2 ^ 60 \<le> nearest (a / b)"
    using nearest_mono[OF _ r] by (simp add: nearest_240th)
  have "60 / nearest (a / b) \<le> 60 / (4803839602528529 / 2 ^ 60)"
    using r' by (intro divide_left_mono) simp_all
  then have "nearest (60 / nearest (a / b)) \<le> nearest (60 / (4803839602528529 / 2 ^ 60))"
    using pos(1) by (intro nearest_mono) simp_all
  then have "nearest (60 / nearest (a / b)) \<le> 14400"
    unfolding nearest_14400 .
  then have "nearest (60 / nearest (a / b)) \<le> 120\<^sup>2"
    by (simp add: power2_eq_square)
  then have "sqrt (nearest (60 / nearest (a / b))) \<le> 120"
    by (intro real_le_lsqrt) (use pos(2) in simp_all)
  then have "nearest (sqrt (nearest (60 / nearest (a / b)))) \<le> nearest 120"
    using pos(2) by (intro nearest_mono) simp_all
  then have b': "nearest (sqrt (nearest (60 / nearest (a / b)))) \<le> 120"
    by (simp add: nearest_120)
  have "60 / 120 \<le> 60 / nearest (sqrt (nearest (60 / nearest (a / b))))"
    using b' pos(3) by (intro divide_left_mono) simp_all
  then have "nearest (1 / 2) \<le> nearest (60 / nearest (sqrt (nearest (60 / nearest (a / b)))))"
    by (intro nearest_mono) simp_all
  then show ?thesis by (simp add: nearest_half)
qed

lemma round_nonneg: "0 \<le> (x::real) \<Longrightarrow> 0 \<le> round x"
  by (simp add: round_def)

lemma round_pos: "1 / 2 \<le> (x::real) \<Longrightarrow> 1 \<le> round x"
  unfolding round_def by (simp add: le_floor_iff)

lemma product_tolerance:
  fixes a b d :: real and w h :: int
  assumes "\<bar>of_int w - a\<bar> \<le> d" "\<bar>of_int h - b\<bar> \<le> d" "0 \<le> a" "0 \<le> b"
  shows "\<bar>of_int (w * h) - a * b\<bar> \<le> (a + b) * d + d\<^sup>2"
proof -
  define u where "u = of_int w - a"
  define v where "v = of_int h - b"
  define x where "x = a * v"
  define y where "y = u * b"
  define z where "z = u * v"
  have d: "0 \<le> d" using assms(1) by linarith
  have w: "of_int w = a + u" and h: "of_int h = b + v" by (simp_all add: u_def v_def)
  have eq: "of_int (w * h) - a * b = x + y + z"
    by (simp add: w h x_def y_def z_def algebra_simps)
  have "\<bar>a * v\<bar> \<le> a * d"
    using assms unfolding abs_mult v_def by (intro mult_mono) auto
  then have x: "\<bar>x\<bar> \<le> a * d" by (simp add: x_def)
  have "\<bar>u * b\<bar> \<le> d * b"
    using assms unfolding abs_mult u_def by (intro mult_mono) auto
  then have y: "\<bar>y\<bar> \<le> b * d" by (simp add: y_def mult.commute)
  have "\<bar>u * v\<bar> \<le> d * d"
    using assms d unfolding abs_mult u_def v_def by (intro mult_mono) auto
  then have z: "\<bar>z\<bar> \<le> d\<^sup>2" by (simp add: z_def power2_eq_square)
  have "\<bar>x + y + z\<bar> \<le> a * d + b * d + d\<^sup>2"
    using x y z by linarith
  then show ?thesis unfolding eq by (simp add: algebra_simps)
qed

lemma side_bound:
  fixes x :: real
  assumes "0 \<le> x" "x \<le> 60 * 2 ^ 53"
  shows "sqrt x / 2 ^ 47 \<le> 1 / 2 ^ 17"
proof -
  have "(60 * 2 ^ 53 :: real) \<le> (2 ^ 30)\<^sup>2" by (simp add: power2_eq_square)
  then have "x \<le> (2 ^ 30)\<^sup>2" using assms(2) by linarith
  then have "sqrt x \<le> 2 ^ 30" by (intro real_le_lsqrt) (use assms(1) in simp_all)
  then have "sqrt x / 2 ^ 47 \<le> 2 ^ 30 / 2 ^ 47" by (intro divide_right_mono) simp_all
  then show ?thesis by simp
qed

lemma round_between:
  fixes x :: real
  assumes "of_int n - 1 / 2 \<le> x" "x < of_int n + 1 / 2"
  shows "round x = n"
  using assms by (intro round_unique) simp_all

text \<open>
  Three sources: 1 by 1000, 2 by 1 and, rounding by rounding, 125 by 48.
\<close>

lemma sizing_1_1000:
  "getBitmapDimensions (Fin 1) (Fin 1000) = Inr \<lparr>width = Fin 0, height = Fin 245\<rparr>"
proof -
  define b' where "b' = nearest (sqrt (nearest (60 / nearest (1 / 1000))))"
  define a' where "a' = nearest (60 / b')"
  note s = sizing[of 1 1000, folded b'_def, folded a'_def]
  have B: "244 < sqrt 60000" "sqrt 60000 < 245"
    by (rule real_less_rsqrt, simp add: power2_eq_square) (rule real_less_lsqrt, simp_all add: power2_eq_square)
  have A: "0 < sqrt (3 / 50)" "sqrt (3 / 50) < 1 / 4"
    by simp (rule real_less_lsqrt, simp_all add: power2_eq_square)
  have eb: "\<bar>b' - sqrt 60000\<bar> \<le> 11 / 2 ^ 53 * sqrt 60000" using s(6) by simp
  have "11 / 2 ^ 53 * sqrt 60000 \<le> 11 / 2 ^ 53 * 245" using B by (intro mult_left_mono) simp_all
  then have "\<bar>b' - sqrt 60000\<bar> \<le> 1 / 4" using eb by simp
  moreover have "244.75 < sqrt 60000" by (rule real_less_rsqrt) (simp add: power2_eq_square)
  ultimately have "round b' = 245" using B by (intro round_between; simp; linarith)
  moreover
  have ea: "\<bar>a' - sqrt (3 / 50)\<bar> \<le> 45 / 2 ^ 53 * sqrt (3 / 50)" using s(7) by simp
  have "45 / 2 ^ 53 * sqrt (3 / 50) \<le> 45 / 2 ^ 53 * (1 / 4)" using A by (intro mult_left_mono) simp_all
  then have "\<bar>a' - sqrt (3 / 50)\<bar> \<le> 1 / 8" using ea by simp
  then have "round a' = 0" using A s(5) by (intro round_between; simp; linarith)
  ultimately show ?thesis using s(1) by simp
qed

lemma sizing_2_1:
  "getBitmapDimensions (Fin 2) (Fin 1) = Inr \<lparr>width = Fin 11, height = Fin 5\<rparr>"
proof -
  define b' where "b' = nearest (sqrt (nearest (60 / nearest (2 / 1))))"
  define a' where "a' = nearest (60 / b')"
  note s = sizing[of 2 1, folded b'_def, folded a'_def]
  have B: "5.25 < sqrt 30" "sqrt 30 < 5.49"
    by (rule real_less_rsqrt, simp add: power2_eq_square) (rule real_less_lsqrt, simp_all add: power2_eq_square)
  have A: "10.75 < sqrt 120" "sqrt 120 < 11.25"
    by (rule real_less_rsqrt, simp add: power2_eq_square) (rule real_less_lsqrt, simp_all add: power2_eq_square)
  have eb: "\<bar>b' - sqrt 30\<bar> \<le> 11 / 2 ^ 53 * sqrt 30" using s(6) by simp
  have "11 / 2 ^ 53 * sqrt 30 \<le> 11 / 2 ^ 53 * 5.49" using B by (intro mult_left_mono) simp_all
  then have "\<bar>b' - sqrt 30\<bar> \<le> 1 / 100" using eb by simp
  then have "round b' = 5" using B by (intro round_between; simp; linarith)
  moreover
  have ea: "\<bar>a' - sqrt 120\<bar> \<le> 45 / 2 ^ 53 * sqrt 120" using s(7) by simp
  have "45 / 2 ^ 53 * sqrt 120 \<le> 45 / 2 ^ 53 * 11.25" using A by (intro mult_left_mono) simp_all
  then have "\<bar>a' - sqrt 120\<bar> \<le> 1 / 8" using ea by simp
  then have "round a' = 11" using A by (intro round_between; simp; linarith)
  ultimately show ?thesis using s(1) by simp
qed

lemma ratio_125_48: "nearest (125 / 48) = 5864062014805333 / 2 ^ 51"
  using nearest_eval[of 1 "125 / 48" 5864062014805333] by simp

lemma quotient_125_48: "nearest (60 / (5864062014805333 / 2 ^ 51)) = 6485183463413515 / 2 ^ 48"
  using nearest_eval[of 4 "60 / (5864062014805333 / 2 ^ 51)" 6485183463413515] by simp

lemma root_125_48: "nearest (sqrt (6485183463413515 / 2 ^ 48)) = 5404319552844596 / 2 ^ 50"
proof -
  define s :: real where "s = sqrt (6485183463413515 / 2 ^ 48)"
  have lo: "(5404319552844596 - 1 / 2) / 2 ^ 50 < s" unfolding s_def
    by (rule real_less_rsqrt) (simp add: power2_eq_square)
  have hi: "s < (5404319552844596 + 1 / 2) / 2 ^ 50" unfolding s_def
    by (rule real_less_lsqrt) (simp_all add: power2_eq_square)
  have p1: "2 powi 2 \<le> s" using lo by simp
  have p2: "s < 2 powi (2 + 1)" using hi by simp
  define t where "t = s * 2 ^ 50"
  have "5404319552844596 - 1 / 2 < t" "t < 5404319552844596 + 1 / 2"
    using lo hi by (simp_all add: t_def field_simps)
  then have "\<bar>t - 5404319552844596\<bar> < 1 / 2" by linarith
  then have p3: "\<bar>s / 2 powi (2 - 52) - of_int 5404319552844596\<bar> < 1 / 2"
    by (simp add: t_def power_int_minus)
  from nearest_eval[OF p1 p2 _ p3] show ?thesis unfolding s_def by simp
qed

lemma width_125_48: "nearest (60 / (5404319552844596 / 2 ^ 50)) = 7036874417766399 / 2 ^ 49"
  using nearest_eval[of 3 "60 / (5404319552844596 / 2 ^ 50)" 7036874417766399] by simp

lemma sizing_125_48:
  "getBitmapDimensions (Fin 125) (Fin 48) = Inr \<lparr>width = Fin 12, height = Fin 5\<rparr>"
proof -
  have a: "round (7036874417766399 / 2 ^ 49 :: real) = 12" by (rule round_between; simp)
  have b: "round (5404319552844596 / 2 ^ 50 :: real) = 5" by (rule round_between; simp)
  show ?thesis
    using sizing(1)[of 125 48]
    unfolding ratio_125_48 quotient_125_48 root_125_48 width_125_48 a b by simp
qed

lemma exact_125_48: "round (60 / sqrt (60 / (125 / 48)) :: real) = 13"
proof -
  have e: "sqrt (576 / 25 :: real) = 24 / 5"
    using real_sqrt_abs[of "24 / 5"] by (simp add: power2_eq_square)
  show ?thesis by (simp add: e round_def)
qed

text \<open>
  Claim C2, as amended. For positive integer source dimensions below \<open>2 ^ 53\<close>, with
  \<open>r\<close> the ratio of width to height, \<open>b = sqrt (60 / r)\<close> and \<open>a = 60 / b\<close>, the function
  returns the height \<open>round b'\<close> and the width \<open>round a'\<close>, where \<open>b'\<close> and \<open>a'\<close> are the
  Numbers it computes for \<open>b\<close> and \<open>a\<close>, each within the relative error \<open>1 / 2 ^ 47\<close>:
  the width comes from the square root before it is rounded, not from the height
  returned. Both are integers and not negative; each is within \<open>1 / 2 + 1 / 2 ^ 17\<close> of
  the exact side, the exact sides having the product 60 and the ratio \<open>r\<close>; the
  product of the two differs from 60 by at most \<open>(a + b) * d + d\<^sup>2\<close> for that bound
  \<open>d\<close>. Both are positive when the ratio lies between 1/240 and 240.
\<close>

theorem C2_thumbnail_dimensions:
  assumes "0 < W" "W < 2 ^ 53" "0 < H" "H < 2 ^ 53"
  shows "let r = real W / real H; b = sqrt (60 / r); a = 60 / b; d = 1 / 2 + 1 / 2 ^ 17 in
     \<exists>(w::int) (h::int) a' b'.
       getBitmapDimensions (Fin (real W)) (Fin (real H)) =
         Inr \<lparr>width = Fin (of_int w), height = Fin (of_int h)\<rparr>
     \<and> h = round b' \<and> w = round a'
     \<and> \<bar>b' - b\<bar> \<le> b / 2 ^ 47 \<and> \<bar>a' - a\<bar> \<le> a / 2 ^ 47
     \<and> 0 \<le> w \<and> 0 \<le> h
     \<and> a * b = 60 \<and> a / b = r
     \<and> \<bar>of_int w - a\<bar> \<le> d \<and> \<bar>of_int h - b\<bar> \<le> d
     \<and> \<bar>of_int (w * h) - 60\<bar> \<le> (a + b) * d + d\<^sup>2
     \<and> (H \<le> 240 * W \<and> W \<le> 240 * H \<longrightarrow> 1 \<le> w \<and> 1 \<le> h)"
proof -
  define r where "r = real W / real H"
  define b where "b = sqrt (60 / r)"
  define a where "a = 60 / b"
  define d :: real where "d = 1 / 2 + 1 / 2 ^ 17"
  define b' where "b' = nearest (sqrt (nearest (60 / nearest (real W / real H))))"
  define a' where "a' = nearest (60 / b')"
  have Wr: "1 \<le> real W" "real W \<le> 2 ^ 53" using assms(1,2)
    by (simp_all add: Suc_leI less_imp_le)
  have Hr: "1 \<le> real H" "real H \<le> 2 ^ 53" using assms(3,4)
    by (simp_all add: Suc_leI less_imp_le)
  note s = sizing[OF Wr Hr]
  have r: "0 < r" using assms by (simp add: r_def)
  have bp: "0 < b" using r by (simp add: b_def)
  have a_eq: "a = sqrt (60 * r)" unfolding a_def b_def by (rule ideal_sides(1)[OF r])
  have ap: "0 < a" using r by (simp add: a_eq)
  have ab: "a * b = 60" unfolding a_eq b_def by (rule ideal_sides(2)[OF r])
  have adb: "a / b = r" unfolding a_eq b_def by (rule ideal_sides(3)[OF r])
  have val: "getBitmapDimensions (Fin (real W)) (Fin (real H)) =
      Inr \<lparr>width = Fin (of_int (round a')), height = Fin (of_int (round b'))\<rparr>"
    using s(1) by (simp add: a'_def b'_def)
  have a'p: "0 < a'" and b'p: "0 < b'" using s(4,5) by (simp_all add: a'_def b'_def)
  have "\<bar>b' - b\<bar> \<le> 11 / 2 ^ 53 * b" using s(6) by (simp add: b'_def b_def r_def)
  also have "\<dots> \<le> 64 / 2 ^ 53 * b" using bp by (intro mult_right_mono) simp_all
  finally have eb: "\<bar>b' - b\<bar> \<le> b / 2 ^ 47" by simp
  have "\<bar>a' - a\<bar> \<le> 45 / 2 ^ 53 * a" using s(7) by (simp add: a'_def b'_def a_eq r_def)
  also have "\<dots> \<le> 64 / 2 ^ 53 * a" using ap by (intro mult_right_mono) simp_all
  finally have ea: "\<bar>a' - a\<bar> \<le> a / 2 ^ 47" by simp
  have r_lo: "1 / 2 ^ 53 \<le> r" unfolding r_def using Wr Hr by (intro frac_le) simp_all
  have "real W / real H \<le> 2 ^ 53 / 1" using Wr Hr by (intro frac_le) simp_all
  then have r_hi: "r \<le> 2 ^ 53" by (simp add: r_def)
  have "60 / r \<le> 60 / (1 / 2 ^ 53)" using r_lo by (intro divide_left_mono) simp_all
  then have "b / 2 ^ 47 \<le> 1 / 2 ^ 17" unfolding b_def using r by (intro side_bound) simp_all
  then have eb': "\<bar>b' - b\<bar> \<le> 1 / 2 ^ 17" using eb by linarith
  have "a / 2 ^ 47 \<le> 1 / 2 ^ 17" unfolding a_eq using r r_hi by (intro side_bound) simp_all
  then have ea': "\<bar>a' - a\<bar> \<le> 1 / 2 ^ 17" using ea by linarith
  have wa: "\<bar>of_int (round a') - a\<bar> \<le> d"
    using of_int_round_abs_le[of a'] ea' unfolding d_def by linarith
  have hb: "\<bar>of_int (round b') - b\<bar> \<le> d"
    using of_int_round_abs_le[of b'] eb' unfolding d_def by linarith
  have tol: "\<bar>of_int (round a' * round b') - 60\<bar> \<le> (a + b) * d + d\<^sup>2"
    using product_tolerance[OF wa hb] ap bp ab by simp
  have pos: "1 \<le> round a' \<and> 1 \<le> round b'" if "H \<le> 240 * W" "W \<le> 240 * H"
  proof
    have "real H \<le> 240 * real W" using that(1) by (metis of_nat_le_iff of_nat_mult of_nat_numeral)
    then have "1 / 2 \<le> a'" unfolding a'_def b'_def by (rule sizing_width_positive[OF Wr Hr])
    then show "1 \<le> round a'" by (rule round_pos)
    have "real W \<le> 240 * real H" using that(2) by (metis of_nat_le_iff of_nat_mult of_nat_numeral)
    then have "1 / 2 \<le> b'" unfolding b'_def by (rule sizing_height_positive[OF Wr Hr])
    then show "1 \<le> round b'" by (rule round_pos)
  qed
  have "getBitmapDimensions (Fin (real W)) (Fin (real H)) =
         Inr \<lparr>width = Fin (of_int (round a')), height = Fin (of_int (round b'))\<rparr>
     \<and> round b' = round b' \<and> round a' = round a'
     \<and> \<bar>b' - b\<bar> \<le> b / 2 ^ 47 \<and> \<bar>a' - a\<bar> \<le> a / 2 ^ 47
     \<and> 0 \<le> round a' \<and> 0 \<le> round b'
     \<and> a * b = 60 \<and> a / b = r
     \<and> \<bar>of_int (round a') - a\<bar> \<le> d \<and> \<bar>of_int (round b') - b\<bar> \<le> d
     \<and> \<bar>of_int (round a' * round b') - 60\<bar> \<le> (a + b) * d + d\<^sup>2
     \<and> (H \<le> 240 * W \<and> W \<le> 240 * H \<longrightarrow> 1 \<le> round a' \<and> 1 \<le> round b')"
    using val wa hb tol pos ab adb eb ea round_nonneg[of a'] round_nonneg[of b'] a'p b'p by simp
  then show ?thesis
    unfolding Let_def r_def[symmetric] b_def[symmetric] a_def[symmetric] d_def[symmetric] by blast
qed

text \<open>
  The claim as stated fails. For 1 by 1000 pixels the width returned is 0, which is
  not positive, and the product of the two is 0, not near 60. For 2 by 1 pixels the
  height returned is 5 and the width 11, not the rounding of 60 / 5.
\<close>

theorem C2_counterexample:
  "getBitmapDimensions (Fin 1) (Fin 1000) = Inr \<lparr>width = Fin 0, height = Fin 245\<rparr>
   \<and> getBitmapDimensions (Fin 2) (Fin 1) = Inr \<lparr>width = Fin 11, height = Fin 5\<rparr>
   \<and> round (60 / 5 :: real) = 12"
  using sizing_1_1000 sizing_2_1 by (simp add: round_def)

text \<open>
  A source of 4 by 3 pixels; and one of 125 by 48 pixels, where the exact width 12.5
  would be rounded to 13 and the Number computed for it, just below, is rounded to 12.
\<close>

theorem C2_witness:
  "(\<exists>w h :: int. getBitmapDimensions (Fin 4) (Fin 3) = Inr \<lparr>width = Fin (of_int w), height = Fin (of_int h)\<rparr>
     \<and> 1 \<le> w \<and> 1 \<le> h
     \<and> \<bar>of_int w - 60 / sqrt 45\<bar> \<le> (1 / 2 + 1 / 2 ^ 17 :: real)
     \<and> \<bar>of_int h - sqrt 45\<bar> \<le> (1 / 2 + 1 / 2 ^ 17 :: real))
   \<and> getBitmapDimensions (Fin 125) (Fin 48) = Inr \<lparr>width = Fin 12, height = Fin 5\<rparr>
   \<and> round (60 / sqrt (60 / (125 / 48)) :: real) = 13"
proof -
  have "\<exists>w h :: int. getBitmapDimensions (Fin 4) (Fin 3) = Inr \<lparr>width = Fin (of_int w), height = Fin (of_int h)\<rparr>
     \<and> 1 \<le> w \<and> 1 \<le> h
     \<and> \<bar>of_int w - 60 / sqrt 45\<bar> \<le> (1 / 2 + 1 / 2 ^ 17 :: real)
     \<and> \<bar>of_int h - sqrt 45\<bar> \<le> (1 / 2 + 1 / 2 ^ 17 :: real)"
    using C2_thumbnail_dimensions[of 4 3] unfolding Let_def by simp blast
  then show ?thesis using sizing_125_48 exact_125_48 by simp
qed

text \<open>
  The claim as stated fails: for a source height of 0 the function returns an object,
  with an infinite width and the height 0.
\<close>

theorem C3_counterexample:
  "getBitmapDimensions (Fin 100) (Fin 0) = Inr \<lparr>width = PosInf, height = Fin 0\<rparr>"
  by (simp add: getBitmapDimensions_def js_div_def PIXEL_TARGET_def inf_of_def zero_of_def)

text \<open>
  Claim C3, as amended. For every width \<open>x\<close> and the source height 0 the function
  raises nothing and returns dimensions that are not finite or are zero: NaN twice
  when \<open>x\<close> is NaN or a zero, negative infinity and the negative zero when \<open>x\<close> is
  negative, and positive infinity and zero otherwise.
\<close>

theorem C3_zero_height_returns:
  "getBitmapDimensions x (Fin 0) =
     Inr (if x = NaN \<or> is_zero x then \<lparr>width = NaN, height = NaN\<rparr>
          else if negative x then \<lparr>width = NegInf, height = NegZero\<rparr>
          else \<lparr>width = PosInf, height = Fin 0\<rparr>)"
  by (cases x) (auto simp add: getBitmapDimensions_def js_div_def PIXEL_TARGET_def inf_of_def zero_of_def Let_def)

text \<open>The widths 0 and -3.\<close>

theorem C3_witness:
  "getBitmapDimensions (Fin 0) (Fin 0) = Inr \<lparr>width = NaN, height = NaN\<rparr>
   \<and> getBitmapDimensions (Fin (- 3)) (Fin 0) = Inr \<lparr>width = NegInf, height = NegZero\<rparr>"
  using C3_zero_height_returns[of "Fin 0"] C3_zero_height_returns[of "Fin (- 3)"] by simp

section \<open>The escaped markup\<close>

declare digits.simps [simp del]

lemma escape_clean:
  "set (escape s) \<inter> {CHR ''#'', CHR '':'', CHR ''<'', CHR ''>'', CHR 0x22} = {}"
  by (induction s) (auto simp: ESCAPE_TABLE_def)

lemma escape_single_pass:
  "escape s = concat (map (\<lambda>c. case map_of ESCAPE_TABLE c of Some r \<Rightarrow> r | None \<Rightarrow> [c]) s)"
  by (induction s) (auto split: option.splits)

lemma collapse_whitespace_run:
  assumes "whitespace c" "\<forall>x \<in> set w. whitespace x" "rest = [] \<or> \<not> whitespace (hd rest)"
  shows "collapse_whitespace (c # w @ rest) = CHR '' '' # collapse_whitespace rest"
proof -
  have "dropWhile whitespace (w @ rest) = rest"
    using assms(2,3) by (induction w) (auto simp: dropWhile_eq_self_iff)
  then show ?thesis using assms(1) by simp
qed

lemma collapse_whitespace_other:
  "\<not> whitespace c \<Longrightarrow> collapse_whitespace (c # s) = c # collapse_whitespace s"
  by simp

lemma new_placeholder_eq:
  "new_placeholder s =
     Element ''img'' [(''class'', ''i-amphtml-blurry-placeholder''), (''placeholder'', []), (''src'', s)] []"
  by (simp add: new_placeholder_def)

lemma addBlurryPlaceholder_ok:
  assumes "getDataURI env ps s = Inr d"
  shows "addBlurryPlaceholder env ps s =
     (Inr (Some (Element ''img''
        [(''class'', ''i-amphtml-blurry-placeholder''), (''placeholder'', []),
         (''src'', ''data:image/svg+xml;charset=utf-8,'' @
             escape (join_tags (collapse_whitespace
               (svg_markup (digits (width d)) (digits (height d)) (data_src d)))))] [])), [])"
  using assms
  by (simp add: addBlurryPlaceholder_def then_p_def Let_def new_placeholder_eq optimize_markup_def)

lemma addBlurryPlaceholder_failed:
  assumes "getDataURI env ps s = Inl e"
  shows "addBlurryPlaceholder env ps s = (Inr None, [''[AddBlurryImagePlaceholders]  '' @ message e])"
  using assms by (simp add: addBlurryPlaceholder_def then_p_def Let_def)

text \<open>
  Claim C7. When the data URI has been built, the \<open>src\<close> attribute of the placeholder
  is the prefix \<open>data:image/svg+xml;charset=utf-8,\<close> followed by a payload: the markup
  after the collapse of whitespace, the joining of tags and the escaping, in this
  order. The payload has none of the characters \<open>#\<close>, \<open>:\<close>, \<open><\<close>, \<open>>\<close> and the double quote.
  The escaping replaces each character by its entry in the table, in one pass; the
  collapse replaces a maximal run of whitespace by one space and keeps every other
  character; the joining replaces \<open>> <\<close> by \<open>><\<close>.
\<close>

theorem C7_escaped_markup:
  assumes "getDataURI env ps s = Inr d"
  shows "\<exists>payload.
      addBlurryPlaceholder env ps s =
        (Inr (Some (Element ''img''
           [(''class'', ''i-amphtml-blurry-placeholder''), (''placeholder'', []),
            (''src'', ''data:image/svg+xml;charset=utf-8,'' @ payload)] [])), [])
    \<and> payload = escape (join_tags (collapse_whitespace
                   (svg_markup (digits (width d)) (digits (height d)) (data_src d))))
    \<and> set payload \<inter> {CHR ''#'', CHR '':'', CHR ''<'', CHR ''>'', CHR 0x22} = {}
    \<and> (\<forall>t. escape t = concat (map (\<lambda>c. case map_of ESCAPE_TABLE c of Some r \<Rightarrow> r | None \<Rightarrow> [c]) t))
    \<and> map_of ESCAPE_TABLE =
         [CHR ''#'' \<mapsto> ''%23'', CHR ''%'' \<mapsto> ''%25'', CHR '':'' \<mapsto> ''%3A'',
          CHR ''<'' \<mapsto> ''%3C'', CHR ''>'' \<mapsto> ''%3E'', CHR 0x22 \<mapsto> [CHR 0x27]]
    \<and> (\<forall>c w rest. whitespace c \<and> (\<forall>x \<in> set w. whitespace x) \<and> (rest = [] \<or> \<not> whitespace (hd rest))
          \<longrightarrow> collapse_whitespace (c # w @ rest) = CHR '' '' # collapse_whitespace rest)
    \<and> (\<forall>c t. \<not> whitespace c \<longrightarrow> collapse_whitespace (c # t) = c # collapse_whitespace t)
    \<and> (\<forall>t. join_tags (''> <'' @ t) = ''><'' @ join_tags t)"
proof -
  let ?p = "escape (join_tags (collapse_whitespace
              (svg_markup (digits (width d)) (digits (height d)) (data_src d))))"
  have tab: "map_of ESCAPE_TABLE =
         [CHR ''#'' \<mapsto> ''%23'', CHR ''%'' \<mapsto> ''%25'', CHR '':'' \<mapsto> ''%3A'',
          CHR ''<'' \<mapsto> ''%3C'', CHR ''>'' \<mapsto> ''%3E'', CHR 0x22 \<mapsto> [CHR 0x27]]"
    by (auto simp: ESCAPE_TABLE_def fun_eq_iff)
  have built: "addBlurryPlaceholder env ps s =
        (Inr (Some (Element ''img''
           [(''class'', ''i-amphtml-blurry-placeholder''), (''placeholder'', []),
            (''src'', ''data:image/svg+xml;charset=utf-8,'' @ ?p)] [])), [])"
    by (rule addBlurryPlaceholder_ok[OF assms])
  have clean: "set ?p \<inter> {CHR ''#'', CHR '':'', CHR ''<'', CHR ''>'', CHR 0x22} = {}"
    by (rule escape_clean)
  have pass: "\<forall>t. escape t = concat (map (\<lambda>c. case map_of ESCAPE_TABLE c of Some r \<Rightarrow> r | None \<Rightarrow> [c]) t)"
    by (intro allI) (rule escape_single_pass)
  have run: "\<forall>c w rest. whitespace c \<and> (\<forall>x \<in> set w. whitespace x) \<and> (rest = [] \<or> \<not> whitespace (hd rest))
          \<longrightarrow> collapse_whitespace (c # w @ rest) = CHR '' '' # collapse_whitespace rest"
    using collapse_whitespace_run by blast
  have other: "\<forall>c t. \<not> whitespace c \<longrightarrow> collapse_whitespace (c # t) = c # collapse_whitespace t"
    by simp
  have tags: "\<forall>t. join_tags (''> <'' @ t) = ''><'' @ join_tags t"
    by simp
  show ?thesis
    by (intro exI[of _ ?p] conjI refl built clean pass tab run other tags)
qed

lemma getDataURI_working:
  "getDataURI working_decoder site_params ''a.jpg'' =
     Inr \<lparr>width = 8, height = 8, data_src = ''data:image/png;base64,AAAA''\<rparr>"
  by (simp add: getDataURI_def site_params_def resolvePath_site working_decoder_simps
      then_p_def catch_p_def getBitmapDimensions_def Let_def)

text \<open>A decoded image with a thumbnail of 8 by 8 pixels.\<close>

theorem C7_witness:
  "\<exists>payload.
      addBlurryPlaceholder working_decoder site_params ''a.jpg'' =
        (Inr (Some (Element ''img''
           [(''class'', ''i-amphtml-blurry-placeholder''), (''placeholder'', []),
            (''src'', ''data:image/svg+xml;charset=utf-8,'' @ payload)] [])), [])
    \<and> payload = escape (join_tags (collapse_whitespace
                   (svg_markup (digits 8) (digits 8) ''data:image/png;base64,AAAA'')))
    \<and> set payload \<inter> {CHR ''#'', CHR '':'', CHR ''<'', CHR ''>'', CHR 0x22} = {}
    \<and> collapse_whitespace [CHR ''a'', CHR 0x0A, CHR '' '', CHR '' '', CHR ''b''] = ''a b''
    \<and> join_tags ''<a> <b>'' = ''<a><b>''
    \<and> escape ''#%'' = ''%23%25''"
  using C7_escaped_markup[OF getDataURI_working]
  by (simp add: whitespace_def ESCAPE_TABLE_def)

section \<open>The loop of the transformer\<close>


lemma units_of_simps [simp]:
  "units_of launch [] = []"
  "units_of launch (x # c) = unit_of launch x @ units_of launch c"
  "units_of launch (c @ d) = units_of launch c @ units_of launch d"
  by (simp_all add: units_of_def)

lemma template_no_candidate: "tagName node = Some ''template'' \<Longrightarrow> candidate node = None"
  by (cases node)
     (auto simp: candidate_def qualifies_def shouldAddBlurryPlaceholder_def image_reference_def
        Let_def truthy_def split: option.splits)

lemma walk_units:
  "k < MAX_BLURRED_PLACEHOLDERS \<Longrightarrow>
   fst (walk launch c k acc) = acc @ take (MAX_BLURRED_PLACEHOLDERS - k) (units_of launch (traversal c))"
proof (induction launch c k acc rule: walk.induct)
  case (1 launch placeholders promises)
  then show ?case by simp
next
  case (2 launch p node rest placeholders promises)
  show ?case
  proof (cases "tagName node = Some ''template''")
    case True
    note nc = template_no_candidate[OF True]
    show ?thesis
    proof (cases rest)
      case Nil
      then show ?thesis using True nc by (simp add: skipNodeAndChildren_def unit_of_def)
    next
      case (Cons c cs)
      then show ?thesis using True nc 2(1)[of c cs] 2(4)
        by (simp add: skipNodeAndChildren_def unit_of_def)
    qed
  next
    case False
    show ?thesis
    proof (cases "candidate node")
      case None
      then show ?thesis using False 2(2)[OF False None 2(4)] by (simp add: unit_of_def)
    next
      case (Some src)
      show ?thesis
      proof (cases "placeholders + 1 \<ge> MAX_BLURRED_PLACEHOLDERS")
        case True
        then have "MAX_BLURRED_PLACEHOLDERS - placeholders = 1" using 2(4) by simp
        then show ?thesis using False Some True by (simp add: unit_of_def)
      next
        case nf: False
        then have "MAX_BLURRED_PLACEHOLDERS - placeholders = Suc (MAX_BLURRED_PLACEHOLDERS - (placeholders + 1))"
          by simp
        moreover have "placeholders + 1 < MAX_BLURRED_PLACEHOLDERS" using nf by simp
        ultimately show ?thesis using False Some nf 2(3)[OF False Some refl refl nf]
          by (simp add: unit_of_def)
      qed
    qed
  qed
qed

lemma walk_thrown:
  "snd (walk launch c k acc) = None \<or>
   snd (walk launch c k acc) = Some (TypeError ''Cannot read property nextNode of null'')"
proof (induction launch c k acc rule: walk.induct)
  case (1 launch placeholders promises)
  then show ?case by simp
next
  case (2 launch p node rest placeholders promises)
  show ?case
  proof (cases "tagName node = Some ''template''")
    case True
    show ?thesis
    proof (cases rest)
      case Nil
      then show ?thesis using True by (simp add: skipNodeAndChildren_def)
    next
      case (Cons c cs)
      then show ?thesis using True 2(1)[of c cs]
        by (simp add: skipNodeAndChildren_def)
    qed
  next
    case False
    show ?thesis
    proof (cases "candidate node")
      case None
      then show ?thesis using False 2(2)[OF False None] by simp
    next
      case (Some src)
      show ?thesis
      proof (cases "placeholders + 1 \<ge> MAX_BLURRED_PLACEHOLDERS")
        case True
        then show ?thesis using False Some by simp
      next
        case nf: False
        then show ?thesis using False Some 2(3)[OF False Some refl refl nf] by simp
      qed
    qed
  qed
qed

lemma visited_prefix: "prefix (visited c k) (traversal c)"
  by (induction c k rule: visited.induct)
     (auto simp: skipNodeAndChildren_def split: list.splits option.splits)

lemma visited_units:
  "k < MAX_BLURRED_PLACEHOLDERS \<Longrightarrow>
   units_of launch (visited c k) = take (MAX_BLURRED_PLACEHOLDERS - k) (units_of launch (traversal c))"
proof (induction c k rule: visited.induct)
  case (1 placeholders)
  then show ?case by simp
next
  case (2 p node rest placeholders)
  show ?case
  proof (cases "tagName node = Some ''template''")
    case True
    note nc = template_no_candidate[OF True]
    show ?thesis
    proof (cases rest)
      case Nil
      then show ?thesis using True nc by (simp add: skipNodeAndChildren_def unit_of_def)
    next
      case (Cons c cs)
      then show ?thesis using True nc 2(1)[of c cs] 2(4)
        by (simp add: skipNodeAndChildren_def unit_of_def)
    qed
  next
    case False
    show ?thesis
    proof (cases "candidate node")
      case None
      then show ?thesis using False 2(2)[OF False None 2(4)] by (simp add: unit_of_def)
    next
      case (Some src)
      show ?thesis
      proof (cases "placeholders + 1 \<ge> MAX_BLURRED_PLACEHOLDERS")
        case True
        then have "MAX_BLURRED_PLACEHOLDERS - placeholders = 1" using 2(4) by simp
        then show ?thesis using False Some True by (simp add: unit_of_def)
      next
        case nf: False
        then have "MAX_BLURRED_PLACEHOLDERS - placeholders = Suc (MAX_BLURRED_PLACEHOLDERS - (placeholders + 1))"
          by simp
        moreover have "placeholders + 1 < MAX_BLURRED_PLACEHOLDERS" using nf by simp
        ultimately show ?thesis using False Some nf 2(3)[OF False Some nf]
          by (simp add: unit_of_def)
      qed
    qed
  qed
qed

lemma visited_stops:
  "k < MAX_BLURRED_PLACEHOLDERS \<Longrightarrow>
   MAX_BLURRED_PLACEHOLDERS - k \<le> length (units_of launch (traversal c)) \<Longrightarrow>
   visited c k \<noteq> [] \<and> candidate (snd (last (visited c k))) \<noteq> None"
proof (induction c k rule: visited.induct)
  case (1 placeholders)
  then show ?case by simp
next
  case (2 p node rest placeholders)
  show ?case
  proof (cases "tagName node = Some ''template''")
    case True
    note nc = template_no_candidate[OF True]
    show ?thesis
    proof (cases rest)
      case Nil
      then show ?thesis using True nc 2(4,5) by (simp add: skipNodeAndChildren_def unit_of_def)
    next
      case (Cons c cs)
      then show ?thesis using True nc 2(1)[of c cs] 2(4,5)
        by (simp add: skipNodeAndChildren_def unit_of_def)
    qed
  next
    case False
    show ?thesis
    proof (cases "candidate node")
      case None
      then show ?thesis using False 2(2)[OF False None 2(4)] 2(5) by (simp add: unit_of_def)
    next
      case (Some src)
      show ?thesis
      proof (cases "placeholders + 1 \<ge> MAX_BLURRED_PLACEHOLDERS")
        case True
        then show ?thesis using False Some True by simp
      next
        case nf: False
        moreover have "placeholders + 1 < MAX_BLURRED_PLACEHOLDERS" using nf by simp
        ultimately show ?thesis using False Some nf 2(3)[OF False Some nf] 2(5)
          by (simp add: unit_of_def)
      qed
    qed
  qed
qed

lemma document_order_append: "document_order (c @ d) = document_order c @ document_order d"
proof (induction c arbitrary: d rule: document_order.induct)
  case 1
  then show ?case by simp
next
  case (2 p node rest)
  have "document_order (((p, node) # rest) @ d) =
        (p, node) # document_order (nextNode ((p, node) # rest) @ d)"
    by (simp add: nextNode_def)
  also have "\<dots> = (p, node) # document_order (nextNode ((p, node) # rest)) @ document_order d"
    by (simp only: 2)
  finally show ?case by simp
qed

lemma preorder_children_eq:
  "preorder_children p i cs = concat (map (\<lambda>(q, c). preorder q c) (number_children p i cs))"
  by (induction cs arbitrary: i) auto

lemma document_order_preorder_aux:
  "document_order [(p, n)] = preorder p n"
  "document_order (number_children p i cs) = preorder_children p i cs"
proof (induction p n and p i cs rule: preorder_preorder_children.induct)
  case (1 p t a cs)
  then show ?case by (simp add: nextNode_def children_at_def)
next
  case (2 p s)
  then show ?case by (simp add: nextNode_def children_at_def)
next
  case (3 p i)
  then show ?case by simp
next
  case (4 p i c cs)
  have "document_order ((p @ [i], c) # number_children p (Suc i) cs) =
        document_order ([(p @ [i], c)] @ number_children p (Suc i) cs)" by simp
  also have "\<dots> = document_order [(p @ [i], c)] @ document_order (number_children p (Suc i) cs)"
    by (rule document_order_append)
  finally show ?case using 4 by simp
qed

lemma document_order_Cons:
  "document_order ((p, n) # rest) = preorder p n @ document_order rest"
proof -
  have "document_order ((p, n) # rest) = document_order ([(p, n)] @ rest)" by simp
  also have "\<dots> = document_order [(p, n)] @ document_order rest"
    by (rule document_order_append)
  finally show ?thesis by (simp only: document_order_preorder_aux)
qed

lemma traversal_subseq: "subseq (traversal c) (document_order c)"
proof (induction c rule: traversal.induct)
  case 1
  then show ?case by simp
next
  case (2 p node rest)
  show ?case
  proof (cases "tagName node = Some ''template''")
    case True
    show ?thesis
    proof (cases rest)
      case Nil
      then show ?thesis using True by (simp add: skipNodeAndChildren_def)
    next
      case (Cons c cs)
      obtain q m where c: "c = (q, m)" by (cases c)
      have "subseq (traversal (nextNode (c # cs))) (document_order (nextNode (c # cs)))"
        using 2(1)[OF True] Cons by (simp add: skipNodeAndChildren_def)
      then have "subseq (traversal (nextNode (c # cs))) (document_order rest)"
        using Cons c by (auto intro: list_emb_Cons)
      then have "subseq (traversal (nextNode (c # cs))) (document_order (nextNode ((p, node) # rest)))"
        by (simp add: nextNode_def document_order_append list_emb_append2)
      then show ?thesis using True Cons by (simp add: skipNodeAndChildren_def)
    qed
  next
    case False
    then show ?thesis using 2(2) by simp
  qed
qed

lemma traversal_template_free_aux:
  "\<forall>x \<in> set (document_order c). tagName (snd x) \<noteq> Some ''template'' \<Longrightarrow> traversal c = document_order c"
  by (induction c rule: document_order.induct) auto

lemma traversal_template_free: "\<not> has_template c \<Longrightarrow> traversal c = document_order c"
  using traversal_template_free_aux[of c] by (auto simp: has_template_def)


lemma length_graft_children [simp]: "length (graft_children g i cs) = length cs"
  by (induction cs arbitrary: i) auto

lemma nth_graft_children:
  "j < length cs \<Longrightarrow> graft_children g i cs ! j = graft (\<lambda>q. g ((i + j) # q)) (cs ! j)"
proof (induction cs arbitrary: i j)
  case Nil
  then show ?case by simp
next
  case (Cons c cs)
  then show ?case by (cases j) auto
qed

lemma graft_children_cong:
  "(\<And>j q. g (j # q) = h (j # q)) \<Longrightarrow> graft_children g i cs = graft_children h i cs"
  by (induction cs arbitrary: i) auto

lemma graft_none:
  "graft (\<lambda>q. None) t = t"
  "graft_children (\<lambda>q. None) i cs = cs"
  by (induction "\<lambda>q :: path. None :: node option" t and "\<lambda>q :: path. None :: node option" i cs
      rule: graft_graft_children.induct) auto

lemma update_at_same: "update_at q (\<lambda>n. n) t = t"
proof (induction q arbitrary: t)
  case Nil
  then show ?case by simp
next
  case (Cons i q)
  then show ?case by (cases t) auto
qed

lemma graft_update:
  assumes "node_at t q \<noteq> None" "g q = None"
  shows "update_at q (\<lambda>n. appendChild n (Some img)) (graft g t) = graft (g(q \<mapsto> img)) t"
  using assms
proof (induction q arbitrary: g t)
  case Nil
  show ?case
  proof (cases t)
    case (Element tg a cs)
    have "graft_children (g([] \<mapsto> img)) 0 cs = graft_children g 0 cs"
      by (rule graft_children_cong) simp
    moreover have "(g([] \<mapsto> img)) [] = Some img" by simp
    ultimately show ?thesis using Element Nil by (simp del: fun_upd_apply)
  next
    case (Text s)
    then show ?thesis by simp
  qed
next
  case (Cons i q)
  show ?case
  proof (cases t)
    case (Element tg a cs)
    with Cons.prems have i: "i < length cs" and sub: "node_at (cs ! i) q \<noteq> None"
      by (auto split: if_splits)
    let ?f = "\<lambda>n. appendChild n (Some img)"
    let ?gi = "\<lambda>r. g (i # r)"
    let ?ex = "case g [] of Some img \<Rightarrow> [img] | None \<Rightarrow> []"
    have ih: "update_at q ?f (graft ?gi (cs ! i)) = graft (?gi(q \<mapsto> img)) (cs ! i)"
      by (rule Cons.IH[OF sub]) (use Cons.prems(2) in simp)
    have "graft_children (g(i # q \<mapsto> img)) 0 cs =
          (graft_children g 0 cs)[i := graft (?gi(q \<mapsto> img)) (cs ! i)]"
    proof (rule nth_equalityI)
      show "length (graft_children (g(i # q \<mapsto> img)) 0 cs) =
            length ((graft_children g 0 cs)[i := graft (?gi(q \<mapsto> img)) (cs ! i)])"
        by simp
    next
      fix j assume "j < length (graft_children (g(i # q \<mapsto> img)) 0 cs)"
      then have j: "j < length cs" by simp
      show "graft_children (g(i # q \<mapsto> img)) 0 cs ! j =
            (graft_children g 0 cs)[i := graft (?gi(q \<mapsto> img)) (cs ! i)] ! j"
      proof (cases "j = i")
        case True
        have "(\<lambda>r. (g(i # q \<mapsto> img)) (i # r)) = ?gi(q \<mapsto> img)" by (auto simp: fun_eq_iff)
        then show ?thesis using True j by (simp add: nth_graft_children)
      next
        case False
        then have "(\<lambda>r. (g(i # q \<mapsto> img)) (j # r)) = (\<lambda>r. g (j # r))" by (auto simp: fun_eq_iff)
        then show ?thesis using False j by (simp add: nth_graft_children)
      qed
    qed
    moreover have "(g(i # q \<mapsto> img)) [] = g []" by simp
    ultimately show ?thesis
      using Element i ih
      by (simp add: nth_append list_update_append nth_graft_children del: fun_upd_apply)
  next
    case (Text s)
    then show ?thesis using Cons.prems by simp
  qed
qed

lemma node_at_graft:
  "node_at t p = Some n \<Longrightarrow> node_at (graft g t) p = Some (graft (\<lambda>q. g (p @ q)) n)"
proof (induction p arbitrary: g t)
  case Nil
  then show ?case by simp
next
  case (Cons i p)
  show ?case
  proof (cases t)
    case (Element tg a cs)
    with Cons.prems have i: "i < length cs" and sub: "node_at (cs ! i) p = Some n"
      by (auto split: if_splits)
    show ?thesis using Element i Cons.IH[OF sub, of "\<lambda>r. g (i # r)"]
      by (simp add: nth_append nth_graft_children)
  next
    case (Text s)
    then show ?thesis using Cons.prems by simp
  qed
qed

lemma settle_all_Cons:
  "fst (settle_all b (u # us)) = fst (settle_all (fst (settle b u)) us)"
  "snd (settle_all b (u # us)) = snd (settle b u) # snd (settle_all (fst (settle b u)) us)"
  by (simp_all add: case_prod_unfold)

lemma settle_all_graft:
  assumes "distinct (map fst us)" "\<forall>u \<in> set us. node_at b (fst u) \<noteq> None \<and> g (fst u) = None"
  shows "fst (settle_all (graft g b) us) = graft (place g us) b"
  using assms
proof (induction us arbitrary: g)
  case Nil
  then show ?case by simp
next
  case (Cons u us)
  obtain q result logged where u: "u = (q, result, logged)" by (cases u)
  let ?g = "case result of Inr (Some img) \<Rightarrow> g(q \<mapsto> img) | _ \<Rightarrow> g"
  have step: "fst (settle (graft g b) u) = graft ?g b"
  proof (cases result)
    case (Inl e)
    then show ?thesis using u by (simp add: settle_def)
  next
    case (Inr v)
    show ?thesis
    proof (cases v)
      case None
      have "(\<lambda>node. appendChild node None) = (\<lambda>n. n)"
      proof
        fix node show "appendChild node None = node" by (cases node) auto
      qed
      then show ?thesis using u Inr None by (simp add: settle_def update_at_same)
    next
      case (Some img)
      then show ?thesis using u Inr Cons.prems(2) by (simp add: settle_def graft_update)
    qed
  qed
  have rest: "\<forall>x \<in> set us. node_at b (fst x) \<noteq> None \<and> ?g (fst x) = None"
    using Cons.prems u by (auto split: sum.splits option.splits)
  have "fst (settle_all (graft ?g b) us) = graft (place ?g us) b"
    using Cons.IH[OF _ rest] Cons.prems(1) by simp
  then show ?case using step u by (simp add: settle_all_Cons del: settle_all.simps)
qed

lemma place_lookup:
  "distinct (map fst us) \<Longrightarrow>
   place g us p =
     (case map_of us p of
        None \<Rightarrow> g p
      | Some (result, logged) \<Rightarrow> (case result of Inr (Some img) \<Rightarrow> Some img | _ \<Rightarrow> g p))"
proof (induction us arbitrary: g)
  case Nil
  then show ?case by simp
next
  case (Cons u us)
  obtain q result logged where u: "u = (q, result, logged)" by (cases u)
  have "q \<notin> fst ` set us" using Cons.prems u by simp
  then have no: "map_of us q = None" by (simp add: map_of_eq_None_iff)
  show ?case using Cons.IH[of "case result of Inr (Some img) \<Rightarrow> g(q \<mapsto> img) | _ \<Rightarrow> g"] Cons.prems u no
    by (auto split: sum.splits option.splits)
qed

lemma settled_promises:
  "\<forall>u \<in> set us. \<exists>v l. snd u = (Inr v, l) \<Longrightarrow> \<exists>ds. Promise_all (snd (settle_all b us)) = Inr ds"
proof (induction us arbitrary: b)
  case Nil
  then show ?case by simp
next
  case (Cons u us)
  obtain q v l where u: "u = (q, Inr v, l)" using Cons.prems by (cases u) auto
  obtain ds where "Promise_all (snd (settle_all (update_at q (\<lambda>node. appendChild node v) b) us)) = Inr ds"
    using Cons.IH[of "update_at q (\<lambda>node. appendChild node v) b"] Cons.prems by auto
  then show ?case using u by (simp add: settle_all_Cons settle_def del: settle_all.simps)
qed


lemma node_at_Element:
  "node_at (Element t a cs) r = Some n \<longleftrightarrow>
     (r = [] \<and> n = Element t a cs) \<or> (\<exists>j r'. r = j # r' \<and> j < length cs \<and> node_at (cs ! j) r' = Some n)"
  by (cases r) auto

lemma node_at_Text: "node_at (Text s) r = Some n \<longleftrightarrow> r = [] \<and> n = Text s"
  by (cases r) auto

lemma preorder_paths:
  "(p, n) \<in> set (preorder q t) \<longleftrightarrow> (\<exists>r. p = q @ r \<and> node_at t r = Some n)"
  "(p, n) \<in> set (preorder_children q i cs) \<longleftrightarrow>
     (\<exists>j r. j < length cs \<and> p = q @ (i + j) # r \<and> node_at (cs ! j) r = Some n)"
proof (induction q t and q i cs arbitrary: p n and p n rule: preorder_preorder_children.induct)
  case (1 q t a cs)
  show ?case
    unfolding node_at_Element preorder.simps set_simps insert_iff 1 by auto
next
  case (2 q s)
  show ?case unfolding node_at_Text by auto
next
  case (3 q i)
  show ?case by simp
next
  case (4 q i c cs)
  have "(\<exists>j r. j < length (c # cs) \<and> p = q @ (i + j) # r \<and> node_at ((c # cs) ! j) r = Some n) \<longleftrightarrow>
        (\<exists>r. p = q @ i # r \<and> node_at c r = Some n) \<or>
        (\<exists>j r. j < length cs \<and> p = q @ (Suc i + j) # r \<and> node_at (cs ! j) r = Some n)"
    (is "?L \<longleftrightarrow> ?A \<or> ?B")
  proof
    assume ?L
    then obtain j r where j: "j < length (c # cs)" "p = q @ (i + j) # r" "node_at ((c # cs) ! j) r = Some n"
      by blast
    show "?A \<or> ?B"
    proof (cases j)
      case 0
      then show ?thesis using j by auto
    next
      case (Suc m)
      then have "m < length cs" "p = q @ (Suc i + m) # r" "node_at (cs ! m) r = Some n"
        using j by auto
      then show ?thesis by blast
    qed
  next
    assume "?A \<or> ?B"
    then show ?L
    proof
      assume ?A
      then obtain r where "p = q @ (i + 0) # r" "node_at ((c # cs) ! 0) r = Some n" by auto
      then show ?L by (intro exI[of _ 0] exI[of _ r]) simp
    next
      assume ?B
      then obtain j r where "j < length cs" "p = q @ (Suc i + j) # r" "node_at (cs ! j) r = Some n"
        by blast
      then show ?L by (intro exI[of _ "Suc j"] exI[of _ r]) simp
    qed
  qed
  then show ?case unfolding preorder_children.simps set_append Un_iff 4 by auto
qed

lemma distinct_preorder:
  "distinct (map fst (preorder q t))"
  "distinct (map fst (preorder_children q i cs))"
proof (induction q t and q i cs rule: preorder_preorder_children.induct)
  case (1 q t a cs)
  have "q \<notin> fst ` set (preorder_children q 0 cs)"
    by (auto simp: preorder_paths)
  then show ?case using 1 by simp
next
  case (2 q s)
  show ?case by simp
next
  case (3 q i)
  show ?case by simp
next
  case (4 q i c cs)
  have "fst ` set (preorder (q @ [i]) c) \<inter> fst ` set (preorder_children q (Suc i) cs) = {}"
    by (auto simp: preorder_paths)
  then show ?case using 4 by simp
qed

lemma fst_units_of: "map fst (units_of launch c) = map fst (filter (\<lambda>x. candidate (snd x) \<noteq> None) c)"
  by (induction c) (auto simp: unit_of_def split: option.splits)

lemma in_unit_of:
  "(p, u) \<in> set (unit_of launch x) \<longleftrightarrow> (\<exists>s. p = fst x \<and> candidate (snd x) = Some s \<and> u = launch s)"
  by (cases "candidate (snd x)") (auto simp: unit_of_def)

lemma in_units_of:
  "(p, u) \<in> set (units_of launch c) \<longleftrightarrow> (\<exists>n s. (p, n) \<in> set c \<and> candidate n = Some s \<and> u = launch s)"
proof -
  have "(p, u) \<in> set (units_of launch c) \<longleftrightarrow> (\<exists>x \<in> set c. (p, u) \<in> set (unit_of launch x))"
    by (simp add: units_of_def)
  then show ?thesis unfolding in_unit_of by force
qed

lemma traversal_in_body:
  "(p, n) \<in> set (traversal [([], body)]) \<Longrightarrow> node_at body p = Some n"
proof -
  assume "(p, n) \<in> set (traversal [([], body)])"
  then have "(p, n) \<in> set (document_order [([], body)])"
    using list_emb_set[OF traversal_subseq[of "[([], body)]"]] by blast
  then show ?thesis unfolding document_order_preorder_aux preorder_paths by simp
qed

lemma distinct_traversal: "distinct (map fst (traversal [([], body)]))"
proof -
  have "subseq (map fst (traversal [([], body)])) (map fst (document_order [([], body)]))"
    by (rule subseq_map[OF traversal_subseq])
  moreover have "distinct (map fst (document_order [([], body)]))"
    unfolding document_order_preorder_aux by (rule distinct_preorder)
  ultimately show ?thesis using subseqs_distinctD in_set_subseqs by blast
qed

lemma distinct_units_of: "distinct (map fst c) \<Longrightarrow> distinct (map fst (units_of launch c))"
  unfolding fst_units_of by (simp add: distinct_map_filter)

lemma accepted_eq:
  "accepted env ps body =
     take MAX_BLURRED_PLACEHOLDERS (units_of (addBlurryPlaceholder env ps) (traversal [([], body)]))"
  unfolding accepted_def using walk_units[of 0 "addBlurryPlaceholder env ps" "[([], body)]" "[]"]
  by (simp add: MAX_BLURRED_PLACEHOLDERS_def)

lemma distinct_accepted: "distinct (map fst (accepted env ps body))"
  unfolding accepted_eq take_map[symmetric]
  by (intro distinct_take distinct_units_of distinct_traversal)

lemma in_accepted:
  assumes "(p, u) \<in> set (accepted env ps body)"
  shows "\<exists>n s. node_at body p = Some n \<and> candidate n = Some s \<and> u = addBlurryPlaceholder env ps s"
proof -
  have "(p, u) \<in> set (units_of (addBlurryPlaceholder env ps) (traversal [([], body)]))"
    using assms unfolding accepted_eq by (rule in_set_takeD)
  then show ?thesis unfolding in_units_of using traversal_in_body by blast
qed

lemma fulfilled: "\<exists>v l. addBlurryPlaceholder env ps s = (Inr v, l)"
  by (simp add: addBlurryPlaceholder_def Let_def split: sum.splits)

lemma update_at_cons:
  "i < length cs \<Longrightarrow> update_at (i # p) f (Element t a cs) = Element t a (cs[i := update_at p f (cs ! i)])"
  by simp

lemma first_by_tag_Some:
  "first_by_tag t k cs = Some (i, c) \<Longrightarrow>
     k \<le> i \<and> i - k < length cs \<and> cs ! (i - k) = c \<and> tagName c = Some t"
proof (induction cs arbitrary: k)
  case Nil
  then show ?case by simp
next
  case (Cons x xs)
  show ?case
  proof (cases "tagName x = Some t")
    case True
    then show ?thesis using Cons.prems by auto
  next
    case False
    then have "first_by_tag t (Suc k) xs = Some (i, c)" using Cons.prems by simp
    from Cons.IH[OF this] show ?thesis by (auto simp: Suc_diff_le)
  qed
qed

lemma firstChildByTag_Some:
  assumes "firstChildByTag n t = Some (i, c)"
  shows "i < length (childNodes n) \<and> childNodes n ! i = c \<and> tagName c = Some t
         \<and> (\<exists>tg a. n = Element tg a (childNodes n))"
proof -
  have "i < length (childNodes n) \<and> childNodes n ! i = c \<and> tagName c = Some t"
    using first_by_tag_Some[of t 0 "childNodes n" i c] assms by (simp add: firstChildByTag_def)
  moreover have "\<exists>tg a. n = Element tg a (childNodes n)"
    using assms by (cases n) (auto simp: firstChildByTag_def)
  ultimately show ?thesis by blast
qed

lemma node_at_replaced_body:
  assumes "firstChildByTag doc ''html'' = Some (i, html)" "firstChildByTag html ''body'' = Some (j, body)"
  shows "node_at (update_at [i, j] (\<lambda>old. b) doc) ([i, j] @ p) = node_at b p"
proof -
  obtain t a cs where doc: "doc = Element t a cs" "i < length cs" "cs ! i = html"
    using firstChildByTag_Some[OF assms(1)] by (metis childNodes.simps(1))
  obtain t' a' hs where html: "html = Element t' a' hs" "j < length hs"
    using firstChildByTag_Some[OF assms(2)] by (metis childNodes.simps(1))
  show ?thesis by (simp add: doc html)
qed

lemma transform_found:
  assumes "firstChildByTag doc ''html'' = Some (i, html)" "firstChildByTag html ''body'' = Some (j, body)"
  shows "document (transform env ps doc) =
           update_at [i, j] (\<lambda>old. graft (place (\<lambda>q. None) (accepted env ps body)) body) doc"
    and "log_lines (transform env ps doc) = concat (map (\<lambda>(p, result, logged). logged) (accepted env ps body))"
    and "completion (transform env ps doc) \<noteq> Rejected e"
    and "snd (walk (addBlurryPlaceholder env ps) [([], body)] 0 []) = None \<Longrightarrow>
           completion (transform env ps doc) = Resolved"
proof -
  let ?us = "accepted env ps body"
  have valid: "\<forall>u \<in> set ?us. node_at body (fst u) \<noteq> None \<and> (\<lambda>q. None) (fst u) = None"
    using in_accepted[of _ _ env ps body] by (metis option.distinct(1) prod.collapse)
  have tree: "fst (settle_all body ?us) = graft (place (\<lambda>q. None) ?us) body"
    using settle_all_graft[OF distinct_accepted valid] by (simp add: graft_none)
  have "\<forall>u \<in> set ?us. \<exists>v l. snd u = (Inr v, l)"
    using in_accepted[of _ _ env ps body] fulfilled by (metis prod.collapse)
  then obtain ds where ok: "Promise_all (snd (settle_all body ?us)) = Inr ds"
    using settled_promises by blast
  obtain us thrown where w: "walk (addBlurryPlaceholder env ps) [([], body)] 0 [] = (us, thrown)"
    by (cases "walk (addBlurryPlaceholder env ps) [([], body)] 0 []")
  then have us: "us = ?us" by (simp add: accepted_def)
  obtain b' ps' where s: "settle_all body us = (b', ps')" by (cases "settle_all body us")
  have b': "b' = graft (place (\<lambda>q. None) ?us) body" and ps': "Promise_all ps' = Inr ds"
    using tree ok s us by simp_all
  show "document (transform env ps doc) =
           update_at [i, j] (\<lambda>old. graft (place (\<lambda>q. None) ?us) body) doc"
    using assms w s b' by (simp add: transform_def)
  show "log_lines (transform env ps doc) = concat (map (\<lambda>(p, result, logged). logged) ?us)"
    using assms w s us by (simp add: transform_def)
  show "completion (transform env ps doc) \<noteq> Rejected e"
    using assms w s ps' by (simp add: transform_def split: option.splits)
  show "completion (transform env ps doc) = Resolved"
    if "snd (walk (addBlurryPlaceholder env ps) [([], body)] 0 []) = None"
    using that assms w s ps' by (simp add: transform_def)
qed

lemma never_rejected: "completion (transform env ps doc) \<noteq> Rejected e"
proof (cases "firstChildByTag doc ''html''")
  case None
  then show ?thesis by (simp add: transform_def)
next
  case (Some x)
  obtain i html where x: "x = (i, html)" by (cases x)
  show ?thesis
  proof (cases "firstChildByTag html ''body''")
    case None
    then show ?thesis using Some x by (simp add: transform_def)
  next
    case (Some y)
    obtain j body where y: "y = (j, body)" by (cases y)
    show ?thesis using transform_found(3)[of doc i html j body] \<open>firstChildByTag doc ''html'' = Some x\<close> Some x y
      by simp
  qed
qed


declare walk.simps [simp del] visited.simps [simp del] traversal.simps [simp del]
  document_order.simps [simp del]

lemma candidate_responsive_image:
  "endsWith s ''.jpg'' \<Longrightarrow> candidate (responsive_image s) = Some s"
  by (auto simp: responsive_image_def candidate_def qualifies_def shouldAddBlurryPlaceholder_def
      image_reference_def attr_def hasPlaceholder_def endsWith_def)

lemma tagName_responsive_image [simp]: "tagName (responsive_image s) = Some ''amp-img''"
  by (simp add: responsive_image_def)

lemma childNodes_responsive_image [simp]: "childNodes (responsive_image s) = []"
  by (simp add: responsive_image_def)

lemma candidate_plain [simp]:
  "candidate (Element ''body'' a cs) = None"
  "candidate (Element ''template'' a cs) = None"
  by (simp_all add: candidate_def qualifies_def shouldAddBlurryPlaceholder_def image_reference_def)

lemmas cursor_defs = nextNode_def skipNodeAndChildren_def children_at_def MAX_BLURRED_PLACEHOLDERS_def

text \<open>
  Claim C8 fails on the code. In a body that holds an empty template followed by a
  template with a responsive image, the cursor skips the first template and stands
  on the second; the update expression of the loop then moves it to the first child
  of the second template, so the loop body runs on the image inside the template and
  accepts it.
\<close>

theorem C8_template_sibling_entered:
  "walk launch [([], two_templates)] 0 [] = ([([1, 0], launch ''a.jpg'')], None)
   \<and> visited [([], two_templates)] 0 =
       [([], two_templates), ([0], Element ''template'' [] []), ([1, 0], responsive_image ''a.jpg'')]
   \<and> node_at two_templates [1] = Some (Element ''template'' [] [responsive_image ''a.jpg''])"
  by (simp add: two_templates_def cursor_defs candidate_responsive_image endsWith_def suffix_to_prefix
      walk.simps visited.simps)

text \<open>
  The cap. One run of the loop creates at most 5 promises: those of the first 5 nodes
  that it accepts among the nodes its cursor stops at, which come in the pre-order of
  the document and are all its nodes when it has no template. The loop body runs on a
  prefix of these nodes and accepts exactly the nodes of its promises; when 5 or more
  nodes qualify, the last node it runs on is the fifth accepted one, so no node after
  it is visited.
\<close>

lemma cap_first_five:
  "let c = [([], body)]; promises = fst (walk launch c 0 []) in
     length promises \<le> 5
   \<and> promises = take 5 (units_of launch (traversal c))
   \<and> subseq (traversal c) (preorder [] body)
   \<and> (\<not> has_template c \<longrightarrow> traversal c = preorder [] body)
   \<and> prefix (visited c 0) (traversal c)
   \<and> units_of launch (visited c 0) = promises
   \<and> (5 \<le> length (units_of launch (traversal c)) \<longrightarrow>
        visited c 0 \<noteq> [] \<and> candidate (snd (last (visited c 0))) \<noteq> None
        \<and> fst (last (visited c 0)) = fst (last promises))"
proof -
  let ?c = "[([], body)]"
  let ?ps = "fst (walk launch ?c 0 [])"
  have m: "MAX_BLURRED_PLACEHOLDERS = 5" by (simp add: MAX_BLURRED_PLACEHOLDERS_def)
  have ps: "?ps = take 5 (units_of launch (traversal ?c))"
    using walk_units[of 0 launch ?c "[]"] by (simp add: m)
  have len: "length ?ps \<le> 5" unfolding ps by simp
  have sub: "subseq (traversal ?c) (preorder [] body)"
    using traversal_subseq[of ?c] unfolding document_order_preorder_aux .
  have free: "\<not> has_template ?c \<longrightarrow> traversal ?c = preorder [] body"
    using traversal_template_free[of ?c] unfolding document_order_preorder_aux by blast
  have pre: "prefix (visited ?c 0) (traversal ?c)" by (rule visited_prefix)
  have vu: "units_of launch (visited ?c 0) = ?ps"
    unfolding ps using visited_units[of 0 launch ?c] by (simp add: m)
  have stop: "visited ?c 0 \<noteq> [] \<and> candidate (snd (last (visited ?c 0))) \<noteq> None
        \<and> fst (last (visited ?c 0)) = fst (last ?ps)"
    if full: "5 \<le> length (units_of launch (traversal ?c))"
  proof -
    have ne: "visited ?c 0 \<noteq> []" and cand: "candidate (snd (last (visited ?c 0))) \<noteq> None"
      using visited_stops[of 0 launch ?c] full by (simp_all add: m)
    obtain s where s: "candidate (snd (last (visited ?c 0))) = Some s" using cand by blast
    have "visited ?c 0 = butlast (visited ?c 0) @ [last (visited ?c 0)]" using ne by simp
    then have "units_of launch (visited ?c 0) =
        units_of launch (butlast (visited ?c 0)) @ unit_of launch (last (visited ?c 0))"
      by (metis units_of_simps(1) units_of_simps(2) units_of_simps(3) append_Nil2)
    then have "last ?ps = (fst (last (visited ?c 0)), launch s)"
      unfolding vu[symmetric] by (simp add: unit_of_def s)
    then show ?thesis using ne cand by simp
  qed
  show ?thesis
    unfolding Let_def using len ps sub free pre vu stop by blast
qed


lemma traversal_eight_images:
  "traversal [([], eight_images)] =
     [([], eight_images),
      ([0], responsive_image ''1.jpg''), ([1], responsive_image ''2.jpg''),
      ([2], responsive_image ''3.jpg''), ([3], responsive_image ''4.jpg''),
      ([4], responsive_image ''5.jpg''), ([5], responsive_image ''6.jpg''),
      ([6], responsive_image ''7.jpg''), ([7], responsive_image ''8.jpg'')]"
  by (simp add: eight_images_def traversal.simps cursor_defs eval_nat_numeral)

lemma document_order_eight_images:
  "document_order [([], eight_images)] = traversal [([], eight_images)]"
  unfolding traversal_eight_images
  by (simp add: eight_images_def document_order.simps cursor_defs eval_nat_numeral)

text \<open>A body with eight qualifying images: the first five are accepted.\<close>

lemma cap_eight_images:
  "\<not> has_template [([], eight_images)]
   \<and> 5 \<le> length (units_of id (traversal [([], eight_images)]))
   \<and> fst (walk id [([], eight_images)] 0 []) =
       [([0], ''1.jpg''), ([1], ''2.jpg''), ([2], ''3.jpg''), ([3], ''4.jpg''), ([4], ''5.jpg'')]
   \<and> fst (last (visited [([], eight_images)] 0)) = [4]"
proof -
  have free: "\<not> has_template [([], eight_images)]"
    unfolding has_template_def document_order_eight_images traversal_eight_images
    by (simp add: eight_images_def)
  have units: "units_of id (traversal [([], eight_images)]) =
      [([0], ''1.jpg''), ([1], ''2.jpg''), ([2], ''3.jpg''), ([3], ''4.jpg''), ([4], ''5.jpg''),
       ([5], ''6.jpg''), ([6], ''7.jpg''), ([7], ''8.jpg'')]"
    unfolding traversal_eight_images
    by (simp add: unit_of_def eight_images_def candidate_responsive_image endsWith_def suffix_to_prefix)
  have full: "5 \<le> length (units_of id (traversal [([], eight_images)]))"
    by (simp add: units)
  note cap = cap_first_five[where launch = id and body = eight_images, unfolded Let_def]
  have promises: "fst (walk id [([], eight_images)] 0 []) =
      take 5 (units_of id (traversal [([], eight_images)]))"
    using cap by blast
  have stop: "fst (last (visited [([], eight_images)] 0)) =
      fst (last (fst (walk id [([], eight_images)] 0 [])))"
    using cap full by blast
  show ?thesis
    using free full by (simp add: stop promises units)
qed

lemma preorder_responsive_image:
  "preorder p (responsive_image s) = [(p, responsive_image s)]"
  by (simp add: responsive_image_def)

text \<open>
  Claim C4 fails on the code when a template precedes the images. In a body that holds
  an empty template followed by six qualifying images, the first five qualifying
  elements in the pre-order of the document are the images 1 to 5. The cursor skips the
  template and stands on image 1; the update expression of the loop, which
  \<^verbatim>\<open>continue\<close> still runs, then moves it to image 2, so the loop body never runs
  on image 1: the five promises are those of the images 2 to 6.
\<close>

theorem C4_image_after_template_skipped:
  "fst (walk launch [([], template_then_six)] 0 []) =
     [([2], launch ''2.jpg''), ([3], launch ''3.jpg''), ([4], launch ''4.jpg''),
      ([5], launch ''5.jpg''), ([6], launch ''6.jpg'')]
   \<and> take 5 (units_of launch (preorder [] template_then_six)) =
     [([1], launch ''1.jpg''), ([2], launch ''2.jpg''), ([3], launch ''3.jpg''),
      ([4], launch ''4.jpg''), ([5], launch ''5.jpg'')]
   \<and> map fst (visited [([], template_then_six)] 0) = [[], [0], [2], [3], [4], [5], [6]]"
  by (simp add: template_then_six_def cursor_defs candidate_responsive_image endsWith_def
      suffix_to_prefix walk.simps visited.simps unit_of_def eval_nat_numeral
      preorder_responsive_image)

lemma candidate_is_element: "candidate n = Some s \<Longrightarrow> \<exists>t a cs. n = Element t a cs"
  by (cases n) (auto simp: candidate_def qualifies_def image_reference_def shouldAddBlurryPlaceholder_def)

lemma childNodes_graft:
  assumes "candidate n = Some s"
  shows "childNodes (graft g n) =
     graft_children g 0 (childNodes n) @ (case g [] of Some img \<Rightarrow> [img] | None \<Rightarrow> [])"
  using candidate_is_element[OF assms] by auto

lemma placed_accepted:
  assumes "(p, result, logged) \<in> set (accepted env ps body)"
  shows "place (\<lambda>q. None) (accepted env ps body) p =
           (case result of Inr (Some img) \<Rightarrow> Some img | _ \<Rightarrow> None)"
proof -
  have "map_of (accepted env ps body) p = Some (result, logged)"
    using assms distinct_accepted by (simp add: map_of_eq_Some_iff)
  then show ?thesis by (simp add: place_lookup[OF distinct_accepted])
qed

lemma placeholder_attribute:
  assumes "addBlurryPlaceholder env ps s = (Inr (Some img), l)"
  shows "tagName img = Some ''img'' \<and> attr img ''placeholder'' = Some []
       \<and> attr img ''class'' = Some ''i-amphtml-blurry-placeholder'' \<and> childNodes img = []"
proof (cases "getDataURI env ps s")
  case (Inl e)
  then show ?thesis using assms by (simp add: addBlurryPlaceholder_failed)
next
  case (Inr d)
  then show ?thesis using assms by (auto simp: addBlurryPlaceholder_ok attr_def)
qed

lemma getDataURI_failure:
  assumes "getDataURI env ps s = Inl e"
  shows "\<exists>imageSrc cause.
      resolvePath env (case imageBasePath ps of None \<Rightarrow> [] | Some b \<Rightarrow> b) s = Inr imageSrc
    \<and> message e = ''Could not create placeholder for '' @ imageSrc @ ''. Reason: '' @ message cause"
proof -
  obtain imageSrc where r: "resolvePath env (case imageBasePath ps of None \<Rightarrow> [] | Some b \<Rightarrow> b) s = Inr imageSrc"
    using resolvePath_Inr by blast
  have m: "message (with_message x m) = m" for x m by (cases x) auto
  show ?thesis using assms r
    by (auto simp: getDataURI_def Let_def catch_p_def m split: sum.splits)
qed

text \<open>
  Claim C1. The promise that \<open>transform\<close> returns is never rejected. The promise of a
  unit is always fulfilled: when the data URI cannot be built, the error is caught and
  logged and the unit yields no element. For every promise of the run, the accepted
  node has, in the document after the run, one more child than before, the
  placeholder, as its last child, when its data URI was built, whatever happened to the
  other units; and the same number of children, with the error in the log, when it
  was not.
\<close>

theorem C1_partial_failure:
  "(\<forall>e. completion (transform env ps doc) \<noteq> Rejected e)
   \<and> (\<forall>s. \<exists>v l. addBlurryPlaceholder env ps s = (Inr v, l))
   \<and> (\<forall>s e. getDataURI env ps s = Inl e \<longrightarrow>
         addBlurryPlaceholder env ps s = (Inr None, [''[AddBlurryImagePlaceholders]  '' @ message e]))
   \<and> (firstChildByTag doc ''html'' = Some (i, html) \<and> firstChildByTag html ''body'' = Some (j, body) \<longrightarrow>
        (\<forall>(p, u) \<in> set (fst (walk (addBlurryPlaceholder env ps) [([], body)] 0 [])).
           \<exists>n s n'. node_at body p = Some n \<and> candidate n = Some s \<and> u = addBlurryPlaceholder env ps s
             \<and> node_at (document (transform env ps doc)) ([i, j] @ p) = Some n'
             \<and> (case getDataURI env ps s of
                   Inl e \<Rightarrow>
                     length (childNodes n') = length (childNodes n)
                     \<and> (''[AddBlurryImagePlaceholders]  '' @ message e) \<in> set (log_lines (transform env ps doc))
                 | Inr d \<Rightarrow>
                     (\<exists>img. fst u = Inr (Some img)
                        \<and> length (childNodes n') = Suc (length (childNodes n))
                        \<and> last (childNodes n') = img
                        \<and> attr img ''placeholder'' = Some []))))"
proof (intro conjI allI impI)
  fix e show "completion (transform env ps doc) \<noteq> Rejected e" by (rule never_rejected)
next
  fix s show "\<exists>v l. addBlurryPlaceholder env ps s = (Inr v, l)" by (rule fulfilled)
next
  fix s e assume "getDataURI env ps s = Inl e"
  then show "addBlurryPlaceholder env ps s = (Inr None, [''[AddBlurryImagePlaceholders]  '' @ message e])"
    by (rule addBlurryPlaceholder_failed)
next
  assume found: "firstChildByTag doc ''html'' = Some (i, html) \<and> firstChildByTag html ''body'' = Some (j, body)"
  let ?us = "accepted env ps body"
  let ?G = "place (\<lambda>q. None) ?us"
  let ?r = "transform env ps doc"
  have doc: "document ?r = update_at [i, j] (\<lambda>old. graft ?G body) doc"
    and lg: "log_lines ?r = concat (map (\<lambda>(p, result, logged). logged) ?us)"
    using transform_found(1,2)[of doc i html j body env ps] found by simp_all
  have "\<exists>n s n'. node_at body p = Some n \<and> candidate n = Some s \<and> u = addBlurryPlaceholder env ps s
             \<and> node_at (document ?r) ([i, j] @ p) = Some n'
             \<and> (case getDataURI env ps s of
                   Inl e \<Rightarrow>
                     length (childNodes n') = length (childNodes n)
                     \<and> (''[AddBlurryImagePlaceholders]  '' @ message e) \<in> set (log_lines ?r)
                 | Inr d \<Rightarrow>
                     (\<exists>img. fst u = Inr (Some img)
                        \<and> length (childNodes n') = Suc (length (childNodes n))
                        \<and> last (childNodes n') = img
                        \<and> attr img ''placeholder'' = Some []))"
    if mem: "(p, u) \<in> set ?us" for p u
  proof -
    obtain n s where n: "node_at body p = Some n" "candidate n = Some s" "u = addBlurryPlaceholder env ps s"
      using in_accepted[OF mem] by blast
    obtain result logged where u: "u = (result, logged)" by (cases u)
    let ?n' = "graft (\<lambda>q. ?G (p @ q)) n"
    have at: "node_at (document ?r) ([i, j] @ p) = Some ?n'"
      unfolding doc using node_at_replaced_body[of doc i html j body] found node_at_graft[OF n(1)]
      by simp
    have G: "?G p = (case result of Inr (Some img) \<Rightarrow> Some img | _ \<Rightarrow> None)"
      using placed_accepted[of p result logged env ps body] mem u by simp
    have kids: "childNodes ?n' =
        graft_children (\<lambda>q. ?G (p @ q)) 0 (childNodes n) @ (case ?G p of Some img \<Rightarrow> [img] | None \<Rightarrow> [])"
      using childNodes_graft[OF n(2), of "\<lambda>q. ?G (p @ q)"] by simp
    have "case getDataURI env ps s of
            Inl e \<Rightarrow>
              length (childNodes ?n') = length (childNodes n)
              \<and> (''[AddBlurryImagePlaceholders]  '' @ message e) \<in> set (log_lines ?r)
          | Inr d \<Rightarrow>
              (\<exists>img. fst u = Inr (Some img)
                 \<and> length (childNodes ?n') = Suc (length (childNodes n))
                 \<and> last (childNodes ?n') = img
                 \<and> attr img ''placeholder'' = Some [])"
    proof (cases "getDataURI env ps s")
      case (Inl e)
      have res: "result = Inr None" "logged = [''[AddBlurryImagePlaceholders]  '' @ message e]"
        using addBlurryPlaceholder_failed[OF Inl] n(3) u by simp_all
      have "(p, result, logged) \<in> set ?us" using mem u by simp
      then have "set logged \<subseteq> set (log_lines ?r)" unfolding lg by auto
      then show ?thesis using Inl res G kids by simp
    next
      case (Inr d)
      obtain img where img: "addBlurryPlaceholder env ps s = (Inr (Some img), [])"
        using addBlurryPlaceholder_ok[OF Inr] by blast
      have "attr img ''placeholder'' = Some []" using placeholder_attribute[OF img] by blast
      then show ?thesis using Inr img n(3) u G kids by simp
    qed
    then show ?thesis using n at by blast
  qed
  then show "\<forall>(p, u) \<in> set (fst (walk (addBlurryPlaceholder env ps) [([], body)] 0 [])).
           \<exists>n s n'. node_at body p = Some n \<and> candidate n = Some s \<and> u = addBlurryPlaceholder env ps s
             \<and> node_at (document ?r) ([i, j] @ p) = Some n'
             \<and> (case getDataURI env ps s of
                   Inl e \<Rightarrow>
                     length (childNodes n') = length (childNodes n)
                     \<and> (''[AddBlurryImagePlaceholders]  '' @ message e) \<in> set (log_lines ?r)
                 | Inr d \<Rightarrow>
                     (\<exists>img. fst u = Inr (Some img)
                        \<and> length (childNodes n') = Suc (length (childNodes n))
                        \<and> last (childNodes n') = img
                        \<and> attr img ''placeholder'' = Some []))"
    unfolding accepted_def[symmetric] by blast
qed

lemma getDataURI_broken:
  "getDataURI working_decoder site_params ''broken.jpg'' =
     Inl (Error ''Could not create placeholder for /site/img/broken.jpg. Reason: Could not find MIME for Buffer'')"
  by (simp add: getDataURI_def site_params_def resolvePath_site working_decoder_simps
      then_p_def catch_p_def Let_def)

text \<open>
  A body with two qualifying images, the first of which cannot be decoded: the promise
  is fulfilled, the error is logged, the first image has no child and the second one
  has its placeholder.
\<close>

theorem C1_witness:
  "completion (transform working_decoder site_params (page broken_and_sound)) = Resolved
   \<and> (''[AddBlurryImagePlaceholders]  Could not create placeholder for /site/img/broken.jpg. Reason: Could not find MIME for Buffer'')
        \<in> set (log_lines (transform working_decoder site_params (page broken_and_sound)))
   \<and> (\<exists>n n'. node_at (document (transform working_decoder site_params (page broken_and_sound))) [0, 1, 0] = Some n
         \<and> length (childNodes n) = 0
         \<and> node_at (document (transform working_decoder site_params (page broken_and_sound))) [0, 1, 1] = Some n'
         \<and> length (childNodes n') = 1
         \<and> attr (last (childNodes n')) ''placeholder'' = Some [])"
proof -
  let ?L = "addBlurryPlaceholder working_decoder site_params"
  let ?html = "Element ''html'' [] [Element ''head'' [] [], broken_and_sound]"
  let ?r = "transform working_decoder site_params (page broken_and_sound)"
  have html: "firstChildByTag (page broken_and_sound) ''html'' = Some (0, ?html)"
    by (simp add: page_def firstChildByTag_def)
  have body: "firstChildByTag ?html ''body'' = Some (1, broken_and_sound)"
    by (simp add: firstChildByTag_def broken_and_sound_def)
  have w: "walk ?L [([], broken_and_sound)] 0 [] =
      ([([0], ?L ''broken.jpg''), ([1], ?L ''a.jpg'')], None)"
    by (simp add: walk.simps cursor_defs broken_and_sound_def candidate_responsive_image
        endsWith_def suffix_to_prefix)
  have n0: "node_at broken_and_sound [0] = Some (responsive_image ''broken.jpg'')"
    and n1: "node_at broken_and_sound [Suc 0] = Some (responsive_image ''a.jpg'')"
    by (simp_all add: broken_and_sound_def)
  have c0: "candidate (responsive_image ''broken.jpg'') = Some ''broken.jpg''"
    and c1: "candidate (responsive_image ''a.jpg'') = Some ''a.jpg''"
    by (simp_all add: candidate_responsive_image endsWith_def suffix_to_prefix)
  note claim = C1_partial_failure[of working_decoder site_params "page broken_and_sound" 0 ?html 1 broken_and_sound]
  have units: "\<forall>(p, u) \<in> set [([0], ?L ''broken.jpg''), ([1], ?L ''a.jpg'')].
      \<exists>n s n'. node_at broken_and_sound p = Some n \<and> candidate n = Some s \<and> u = ?L s
        \<and> node_at (document ?r) ([0, 1] @ p) = Some n'
        \<and> (case getDataURI working_decoder site_params s of
              Inl e \<Rightarrow>
                length (childNodes n') = length (childNodes n)
                \<and> (''[AddBlurryImagePlaceholders]  '' @ message e) \<in> set (log_lines ?r)
            | Inr d \<Rightarrow>
                (\<exists>img. fst u = Inr (Some img)
                   \<and> length (childNodes n') = Suc (length (childNodes n))
                   \<and> last (childNodes n') = img
                   \<and> attr img ''placeholder'' = Some []))"
    using claim html body by (simp add: w)
  obtain n where broken: "node_at (document ?r) [0, 1, 0] = Some n" "length (childNodes n) = 0"
    "(''[AddBlurryImagePlaceholders]  Could not create placeholder for /site/img/broken.jpg. Reason: Could not find MIME for Buffer'')
        \<in> set (log_lines ?r)"
    using units by (auto simp: n0 c0 getDataURI_broken)
  obtain n' where sound: "node_at (document ?r) [0, 1, 1] = Some n'" "length (childNodes n') = 1"
    "attr (last (childNodes n')) ''placeholder'' = Some []"
    using units by (auto simp: n1 c1 getDataURI_working)
  have "completion ?r = Resolved"
    using transform_found(4)[OF html body] by (simp add: w)
  then show ?thesis using broken sound by blast
qed


section \<open>Running the transformer twice\<close>


lemma has_template_preorder:
  "(\<exists>x \<in> set (preorder p n). tagName (snd x) = Some ''template'') \<longleftrightarrow> contains_template n"
  "(\<exists>x \<in> set (preorder_children p i cs). tagName (snd x) = Some ''template'') \<longleftrightarrow>
     (\<exists>c \<in> set cs. contains_template c)"
  by (induction p n and p i cs rule: preorder_preorder_children.induct) auto

lemma has_template_iff: "has_template [(p, n)] \<longleftrightarrow> contains_template n"
  unfolding has_template_def document_order_preorder_aux by (rule has_template_preorder)

lemma accepted_all:
  assumes "\<not> has_template [([], body)]"
    and "length (units_of (addBlurryPlaceholder env ps) (preorder [] body)) \<le> 5"
  shows "accepted env ps body = units_of (addBlurryPlaceholder env ps) (preorder [] body)"
proof -
  have "traversal [([], body)] = preorder [] body"
    using traversal_template_free[OF assms(1)] unfolding document_order_preorder_aux .
  then show ?thesis using assms(2) by (simp add: accepted_eq MAX_BLURRED_PLACEHOLDERS_def)
qed

lemma map_of_units:
  "map_of (units_of L (preorder [] t)) p =
     (case node_at t p of
        None \<Rightarrow> None
      | Some n \<Rightarrow> (case candidate n of None \<Rightarrow> None | Some s \<Rightarrow> Some (L s)))"
proof -
  let ?us = "units_of L (preorder [] t)"
  have d: "distinct (map fst ?us)"
    by (intro distinct_units_of distinct_preorder)
  have mem: "(p, u) \<in> set ?us \<longleftrightarrow> (\<exists>n s. node_at t p = Some n \<and> candidate n = Some s \<and> u = L s)" for u
    unfolding in_units_of preorder_paths by simp
  show ?thesis
  proof (cases "\<exists>n s. node_at t p = Some n \<and> candidate n = Some s")
    case True
    then obtain n s where n: "node_at t p = Some n" "candidate n = Some s" by blast
    then have "(p, L s) \<in> set ?us" using mem by blast
    then have "map_of ?us p = Some (L s)" using d by (simp add: map_of_eq_Some_iff)
    then show ?thesis using n by simp
  next
    case False
    then have "p \<notin> fst ` set ?us" using mem by force
    then have "map_of ?us p = None" by (simp add: map_of_eq_None_iff)
    then show ?thesis using False by (auto split: option.splits)
  qed
qed

lemma place_units:
  "place (\<lambda>q. None) (units_of (addBlurryPlaceholder env ps) (preorder [] t)) = wish env ps t"
proof
  fix p
  have d: "distinct (map fst (units_of (addBlurryPlaceholder env ps) (preorder [] t)))"
    by (intro distinct_units_of distinct_preorder)
  show "place (\<lambda>q. None) (units_of (addBlurryPlaceholder env ps) (preorder [] t)) p = wish env ps t p"
    unfolding place_lookup[OF d] map_of_units wish_def
    by (auto split: option.splits sum.splits prod.splits)
qed

lemma graft_wish:
  "g = wish env ps t \<Longrightarrow> graft g t = decorate env ps t"
  "(\<And>j. j < length cs \<Longrightarrow> (\<lambda>q. g ((i + j) # q)) = wish env ps (cs ! j)) \<Longrightarrow>
     graft_children g i cs = map (decorate env ps) cs"
proof (induction g t and g i cs rule: graft_graft_children.induct)
  case (1 g t a cs)
  have kids: "graft_children g 0 cs = map (decorate env ps) cs"
  proof (rule 1(1))
    fix j assume "j < length cs"
    then show "(\<lambda>q. g ((0 + j) # q)) = wish env ps (cs ! j)"
      unfolding 1(2) by (simp add: wish_def fun_eq_iff)
  qed
  have "g [] = (case candidate (Element t a cs) of None \<Rightarrow> None
      | Some s \<Rightarrow> (case fst (addBlurryPlaceholder env ps s) of Inr (Some img) \<Rightarrow> Some img | _ \<Rightarrow> None))"
    unfolding 1(2) by (simp add: wish_def)
  then show ?case using kids
    by (auto simp: placeholder_of_def split: option.splits sum.splits)
next
  case (2 g s)
  then show ?case by simp
next
  case (3 g i)
  then show ?case by simp
next
  case (4 g i c cs)
  have "(\<lambda>q. g ((i + 0) # q)) = wish env ps ((c # cs) ! 0)" by (rule 4(3)) simp
  then have a: "graft (\<lambda>q. g (i # q)) c = decorate env ps c" using 4(1) by simp
  have b: "graft_children g (Suc i) cs = map (decorate env ps) cs"
  proof (rule 4(2))
    fix j assume "j < length cs"
    then have "(\<lambda>q. g ((i + Suc j) # q)) = wish env ps ((c # cs) ! Suc j)" by (intro 4(3)) simp
    then show "(\<lambda>q. g ((Suc i + j) # q)) = wish env ps (cs ! j)" by simp
  qed
  show ?case using a b by simp
qed

lemma first_run_decorates:
  assumes "\<not> has_template [([], body)]"
    and "length (units_of (addBlurryPlaceholder env ps) (preorder [] body)) \<le> 5"
  shows "graft (place (\<lambda>q. None) (accepted env ps body)) body = decorate env ps body"
  unfolding accepted_all[OF assms] place_units by (rule graft_wish(1)) (rule refl)


lemma candidate_Text [simp]: "candidate (Text s) = None"
  by (simp add: candidate_def qualifies_def image_reference_def shouldAddBlurryPlaceholder_def)

lemma placeholder_shape:
  assumes "img \<in> set (placeholder_of (addBlurryPlaceholder env ps s))"
  obtains a where "img = Element ''img'' a []" "map_of a ''placeholder'' = Some []"
proof -
  obtain l where u: "addBlurryPlaceholder env ps s = (Inr (Some img), l)"
    using assms by (cases "addBlurryPlaceholder env ps s")
      (auto simp: placeholder_of_def split: sum.splits option.splits)
  show thesis
  proof (cases "getDataURI env ps s")
    case (Inl e)
    then show ?thesis using u by (simp add: addBlurryPlaceholder_failed)
  next
    case (Inr d)
    show ?thesis using u unfolding addBlurryPlaceholder_ok[OF Inr] by (auto intro: that)
  qed
qed

lemma placeholder_props:
  assumes "img \<in> set (extra env ps n)"
  shows "placeholder_child img" "candidate img = None" "decorate env ps img = img"
    "\<not> contains_template img" "count img = 0"
proof -
  obtain s where "img \<in> set (placeholder_of (addBlurryPlaceholder env ps s))"
    using assms by (auto simp: extra_def split: option.splits)
  then obtain a where img: "img = Element ''img'' a []" "map_of a ''placeholder'' = Some []"
    by (rule placeholder_shape)
  show c: "candidate img = None"
    by (simp add: img candidate_def qualifies_def image_reference_def shouldAddBlurryPlaceholder_def)
  show "placeholder_child img" by (simp add: img placeholder_child_def attr_def)
  show "decorate env ps img = img" using c by (simp add: img)
  show "\<not> contains_template img" by (simp add: img)
  show "count img = 0" using c by (simp add: img)
qed

lemma decorate_Element:
  "decorate env ps (Element t a cs) =
     Element t a (map (decorate env ps) cs @ extra env ps (Element t a cs))"
  by (simp add: extra_def)

lemma decorate_keeps:
  "tagName (decorate env ps n) = tagName n"
  "attribs (decorate env ps n) = attribs n"
  "attr (decorate env ps n) k = attr n k"
  "image_reference (decorate env ps n) = image_reference n"
  "placeholder_child (decorate env ps n) = placeholder_child n"
  by (cases n; simp add: attr_def image_reference_def placeholder_child_def)+

lemma extra_Text [simp]: "extra env ps (Text s) = []"
  by (simp add: extra_def)

lemma childNodes_decorate:
  "childNodes (decorate env ps n) = map (decorate env ps) (childNodes n) @ extra env ps n"
  by (cases n) (simp_all add: extra_def)

lemma hasPlaceholder_ex: "hasPlaceholder n \<longleftrightarrow> (\<exists>c \<in> set (childNodes n). placeholder_child c)"
  by (auto simp: hasPlaceholder_def find_None_iff)

lemma hasPlaceholder_decorate:
  "hasPlaceholder (decorate env ps n) \<longleftrightarrow> hasPlaceholder n \<or> extra env ps n \<noteq> []"
proof -
  have "(\<exists>c \<in> set (extra env ps n). placeholder_child c) \<longleftrightarrow> extra env ps n \<noteq> []"
    using placeholder_props(1)[of _ env ps n] by (cases "extra env ps n") auto
  then show ?thesis
    unfolding hasPlaceholder_ex childNodes_decorate by (auto simp: decorate_keeps)
qed

lemma extra_needs_candidate: "extra env ps n \<noteq> [] \<Longrightarrow> candidate n \<noteq> None"
  by (cases "candidate n") (auto simp: extra_def)

lemma candidate_decorate:
  "candidate (decorate env ps n) = (if extra env ps n = [] then candidate n else None)"
  unfolding candidate_def qualifies_def shouldAdd_iff decorate_keeps hasPlaceholder_decorate
  by auto

lemma extra_decorate [simp]: "extra env ps (decorate env ps n) = []"
proof (cases "extra env ps n = []")
  case True
  then have "candidate (decorate env ps n) = candidate n" by (simp add: candidate_decorate)
  then show ?thesis using True by (simp add: extra_def)
next
  case False
  then have "candidate (decorate env ps n) = None" by (simp add: candidate_decorate)
  then show ?thesis by (simp add: extra_def)
qed

lemma decorate_idem: "decorate env ps (decorate env ps n) = decorate env ps n"
proof (induction env ps n rule: decorate.induct)
  case (1 env ps t a cs)
  let ?n = "Element t a cs"
  let ?kids = "map (decorate env ps) cs @ extra env ps ?n"
  have d: "decorate env ps ?n = Element t a ?kids" by (rule decorate_Element)
  have kids: "map (decorate env ps) (map (decorate env ps) cs) = map (decorate env ps) cs"
    using 1 by simp
  have ex: "map (decorate env ps) (extra env ps ?n) = extra env ps ?n"
    using placeholder_props(3)[of _ env ps ?n] by (simp add: map_idI)
  have none: "extra env ps (Element t a ?kids) = []"
    using extra_decorate[of env ps ?n] by (simp only: d)
  have "decorate env ps (Element t a ?kids) =
      Element t a (map (decorate env ps) ?kids @ extra env ps (Element t a ?kids))"
    by (rule decorate_Element)
  also have "\<dots> = Element t a ?kids"
    unfolding none map_append kids ex by simp
  finally show ?case by (simp only: d)
next
  case (2 env ps s)
  then show ?case by simp
qed

lemma contains_template_decorate: "contains_template (decorate env ps n) \<longleftrightarrow> contains_template n"
proof (induction env ps n rule: decorate.induct)
  case (1 env ps t a cs)
  have "\<not> (\<exists>c \<in> set (extra env ps (Element t a cs)). contains_template c)"
    using placeholder_props(4) by blast
  then show ?case
    using 1 by (auto simp: decorate_Element simp del: decorate.simps)
next
  case (2 env ps s)
  then show ?case by simp
qed

lemma count_Element:
  "count (Element t a cs) =
     (if candidate (Element t a cs) = None then 0 else 1) + sum_list (map count cs)"
  by simp

lemma count_decorate: "count (decorate env ps n) \<le> count n"
proof (induction env ps n rule: decorate.induct)
  case (1 env ps t a cs)
  let ?n = "Element t a cs"
  let ?kids = "map (decorate env ps) cs @ extra env ps ?n"
  have d: "decorate env ps ?n = Element t a ?kids" by (rule decorate_Element)
  have a: "(if candidate (Element t a ?kids) = None then 0 else 1) \<le>
           (if candidate ?n = None then 0 else (1::nat))"
    using candidate_decorate[of env ps ?n] unfolding d by (simp split: if_splits)
  have b: "sum_list (map count (map (decorate env ps) cs)) \<le> sum_list (map count cs)"
    unfolding map_map o_def using 1 by (intro sum_list_mono) simp
  have c: "sum_list (map count (extra env ps ?n)) = 0"
    using placeholder_props(5)[of _ env ps ?n] by simp
  have "count (Element t a ?kids) =
      (if candidate (Element t a ?kids) = None then 0 else 1)
      + (sum_list (map count (map (decorate env ps) cs)) + sum_list (map count (extra env ps ?n)))"
    unfolding count_Element by simp
  then have "count (Element t a ?kids) \<le> count ?n"
    using a b c unfolding count_Element[of t a cs] by linarith
  then show ?case by (simp only: d)
next
  case (2 env ps s)
  then show ?case by simp
qed

lemma length_units:
  "length (units_of L (preorder p n)) = count n"
  "length (units_of L (preorder_children p i cs)) = sum_list (map count cs)"
  by (induction p n and p i cs rule: preorder_preorder_children.induct)
     (auto simp: unit_of_def split: option.splits)

lemma second_run_decorated:
  assumes "\<not> has_template [([], body)]"
    and "length (units_of (addBlurryPlaceholder env ps) (preorder [] body)) \<le> 5"
  shows "graft (place (\<lambda>q. None) (accepted env ps (decorate env ps body))) (decorate env ps body)
         = decorate env ps body"
proof -
  have "\<not> has_template [([], decorate env ps body)]"
    using assms(1) by (simp add: has_template_iff contains_template_decorate)
  moreover have "length (units_of (addBlurryPlaceholder env ps) (preorder [] (decorate env ps body))) \<le> 5"
    using assms(2) count_decorate[of env ps body] by (simp add: length_units)
  ultimately show ?thesis by (simp add: first_run_decorates decorate_idem)
qed


lemma first_by_tag_update:
  "first_by_tag t k cs = Some (i, c) \<Longrightarrow> tagName c' = Some t \<Longrightarrow>
   first_by_tag t k (cs[i - k := c']) = Some (i, c')"
proof (induction cs arbitrary: k)
  case Nil
  then show ?case by simp
next
  case (Cons x xs)
  show ?case
  proof (cases "tagName x = Some t")
    case True
    then show ?thesis using Cons.prems by auto
  next
    case False
    then have rest: "first_by_tag t (Suc k) xs = Some (i, c)" using Cons.prems by simp
    then have "Suc k \<le> i" using first_by_tag_Some by blast
    then have "i - k = Suc (i - Suc k)" by simp
    then show ?thesis using False Cons.IH[OF rest Cons.prems(2)] by simp
  qed
qed

lemma found_after:
  assumes "firstChildByTag doc ''html'' = Some (i, html)" "firstChildByTag html ''body'' = Some (j, body)"
    and "tagName b = Some ''body''"
  shows "\<exists>html'. firstChildByTag (update_at [i, j] (\<lambda>old. b) doc) ''html'' = Some (i, html')
           \<and> firstChildByTag html' ''body'' = Some (j, b)"
    and "update_at [i, j] (\<lambda>old. b') (update_at [i, j] (\<lambda>old. b) doc) = update_at [i, j] (\<lambda>old. b') doc"
proof -
  obtain t a cs where doc: "doc = Element t a cs" "i < length cs" "cs ! i = html"
    using firstChildByTag_Some[OF assms(1)] by (metis childNodes.simps(1))
  obtain t' a' hs where html: "html = Element t' a' hs" "j < length hs" "t' = ''html''"
    using firstChildByTag_Some[OF assms(2)] firstChildByTag_Some[OF assms(1)]
    by (metis childNodes.simps(1) tagName.simps(1) option.inject)
  let ?html' = "Element t' a' (hs[j := b])"
  have d1: "update_at [i, j] (\<lambda>old. b) doc = Element t a (cs[i := ?html'])"
    by (simp add: doc html)
  have "first_by_tag ''html'' 0 (cs[i - 0 := ?html']) = Some (i, ?html')"
    using assms(1) by (intro first_by_tag_update) (simp_all add: firstChildByTag_def doc html)
  then have h: "firstChildByTag (update_at [i, j] (\<lambda>old. b) doc) ''html'' = Some (i, ?html')"
    by (simp add: d1 firstChildByTag_def)
  have "first_by_tag ''body'' 0 (hs[j - 0 := b]) = Some (j, b)"
    using assms(2,3) by (intro first_by_tag_update) (simp_all add: firstChildByTag_def html)
  then have b: "firstChildByTag ?html' ''body'' = Some (j, b)"
    by (simp add: firstChildByTag_def)
  show "\<exists>html'. firstChildByTag (update_at [i, j] (\<lambda>old. b) doc) ''html'' = Some (i, html')
           \<and> firstChildByTag html' ''body'' = Some (j, b)"
    using h b by blast
  show "update_at [i, j] (\<lambda>old. b') (update_at [i, j] (\<lambda>old. b) doc) = update_at [i, j] (\<lambda>old. b') doc"
    by (simp add: doc html)
qed

lemma tagName_graft: "tagName (graft g n) = tagName n"
  by (cases n) auto

lemma length_childNodes_graft:
  "g [] = None \<Longrightarrow> length (childNodes (graft g n)) = length (childNodes n)"
  by (cases n) auto

lemma unplaced:
  assumes "node_at body p = Some n" "candidate n = None"
  shows "place (\<lambda>q. None) (accepted env ps body) p = None"
proof -
  have "map_of (accepted env ps body) p = None"
  proof (rule ccontr)
    assume "map_of (accepted env ps body) p \<noteq> None"
    then obtain u where "(p, u) \<in> set (accepted env ps body)"
      by (auto dest: map_of_SomeD)
    then show False using in_accepted[of p u env ps body] assms by auto
  qed
  then show ?thesis by (simp add: place_lookup[OF distinct_accepted])
qed

text \<open>
  Claim C5, as amended. A node with a child that has a \<open>placeholder\<close> attribute is never
  accepted, and in the document after a run it has as many children as before.
  Consequently, when the body has no template and at most 5 of its nodes qualify, a
  second run on the document that the first run leaves changes nothing.
\<close>

theorem C5_placeholder_kept_single:
  "(hasPlaceholder n \<longrightarrow> candidate n = None)
   \<and> (firstChildByTag doc ''html'' = Some (i, html) \<and> firstChildByTag html ''body'' = Some (j, body) \<longrightarrow>
        (\<forall>p m m'. node_at body p = Some m \<and> hasPlaceholder m
             \<and> node_at (document (transform env ps doc)) ([i, j] @ p) = Some m'
           \<longrightarrow> length (childNodes m') = length (childNodes m))
      \<and> (\<not> has_template [([], body)]
           \<and> length (units_of (addBlurryPlaceholder env ps) (preorder [] body)) \<le> 5
         \<longrightarrow> document (transform env ps (document (transform env ps doc)))
               = document (transform env ps doc)))"
proof (intro conjI impI allI)
  assume "hasPlaceholder n"
  then show "candidate n = None" by (simp add: candidate_def qualifies_def shouldAdd_iff)
next
  fix p m m'
  assume found: "firstChildByTag doc ''html'' = Some (i, html) \<and> firstChildByTag html ''body'' = Some (j, body)"
    and m: "node_at body p = Some m \<and> hasPlaceholder m
             \<and> node_at (document (transform env ps doc)) ([i, j] @ p) = Some m'"
  let ?G = "place (\<lambda>q. None) (accepted env ps body)"
  have none: "candidate m = None" using m by (simp add: candidate_def qualifies_def shouldAdd_iff)
  have "node_at (document (transform env ps doc)) ([i, j] @ p) = Some (graft (\<lambda>q. ?G (p @ q)) m)"
    using transform_found(1)[of doc i html j body env ps] node_at_replaced_body[of doc i html j body]
      found m node_at_graft[of body p m ?G] by simp
  then have "m' = graft (\<lambda>q. ?G (p @ q)) m" using m by simp
  then show "length (childNodes m') = length (childNodes m)"
    using unplaced[of body p m env ps] m none by (simp add: length_childNodes_graft)
next
  assume found: "firstChildByTag doc ''html'' = Some (i, html) \<and> firstChildByTag html ''body'' = Some (j, body)"
    and small: "\<not> has_template [([], body)]
           \<and> length (units_of (addBlurryPlaceholder env ps) (preorder [] body)) \<le> 5"
  let ?b = "decorate env ps body"
  let ?doc1 = "update_at [i, j] (\<lambda>old. ?b) doc"
  have first: "document (transform env ps doc) = ?doc1"
    using transform_found(1)[of doc i html j body env ps] found first_run_decorates[of body env ps] small
    by simp
  have "tagName ?b = Some ''body''"
    using firstChildByTag_Some[of html "''body''" j body] found by (simp add: decorate_keeps)
  then obtain html' where again: "firstChildByTag ?doc1 ''html'' = Some (i, html')"
      "firstChildByTag html' ''body'' = Some (j, ?b)"
    using found_after(1)[of doc i html j body ?b] found by blast
  have "document (transform env ps ?doc1) =
      update_at [i, j] (\<lambda>old. graft (place (\<lambda>q. None) (accepted env ps ?b)) ?b) ?doc1"
    by (rule transform_found(1)[OF again])
  also have "\<dots> = update_at [i, j] (\<lambda>old. ?b) ?doc1"
    using second_run_decorated[of body env ps] small by simp
  also have "\<dots> = ?doc1"
    using found_after(2)[of doc i html j body ?b ?b] found
      firstChildByTag_Some[of html "''body''" j body] by (simp add: decorate_keeps)
  finally show "document (transform env ps (document (transform env ps doc)))
               = document (transform env ps doc)"
    unfolding first .
qed


lemma working_placeholder:
  obtains a where
    "addBlurryPlaceholder working_decoder site_params ''a.jpg'' = (Inr (Some (Element ''img'' a [])), [])"
    "map_of a ''placeholder'' = Some []"
  using addBlurryPlaceholder_ok[OF getDataURI_working] by simp

lemma found_page:
  "firstChildByTag (page b) ''html'' = Some (0, Element ''html'' [] [Element ''head'' [] [], b])"
  "tagName b = Some ''body'' \<Longrightarrow>
   firstChildByTag (Element ''html'' [] [Element ''head'' [] [], b]) ''body'' = Some (1, b)"
  by (simp_all add: page_def firstChildByTag_def)

lemma candidate_with_child:
  "map_of a ''placeholder'' = Some v \<Longrightarrow> candidate (with_child (Element ''img'' a [])) = None"
  by (simp add: with_child_def candidate_def qualifies_def shouldAddBlurryPlaceholder_def
      image_reference_def attr_def hasPlaceholder_def placeholder_child_def)

lemma with_child_simps [simp]:
  "tagName (with_child c) = Some ''amp-img''"
  "childNodes (with_child c) = [c]"
  by (simp_all add: with_child_def)

lemma candidate_img: "candidate (Element ''img'' a cs) = None"
  by (simp add: candidate_def qualifies_def shouldAddBlurryPlaceholder_def image_reference_def)

text \<open>
  The claim as stated fails when the cap has stopped the first run: of six qualifying
  images the first run gives a placeholder to five, and the second run, which now skips
  these five, gives one to the sixth.
\<close>

theorem C5_counterexample:
  "document (transform working_decoder site_params
      (document (transform working_decoder site_params (page six_images))))
   \<noteq> document (transform working_decoder site_params (page six_images))"
proof -
  let ?L = "addBlurryPlaceholder working_decoder site_params"
  let ?html = "Element ''html'' [] [Element ''head'' [] [], six_images]"
  obtain a where L: "?L ''a.jpg'' = (Inr (Some (Element ''img'' a [])), [])"
    and a: "map_of a ''placeholder'' = Some []"
    by (rule working_placeholder)
  let ?P = "Element ''img'' a []"
  let ?b1 = "Element ''body'' []
     [with_child ?P, with_child ?P, with_child ?P, with_child ?P, with_child ?P,
      responsive_image ''a.jpg'']"
  let ?b2 = "Element ''body'' []
     [with_child ?P, with_child ?P, with_child ?P, with_child ?P, with_child ?P,
      with_child ?P]"
  have cand: "candidate (responsive_image ''a.jpg'') = Some ''a.jpg''"
    by (simp add: candidate_responsive_image endsWith_def suffix_to_prefix)
  have acc1: "accepted working_decoder site_params six_images =
      [([0], ?L ''a.jpg''), ([1], ?L ''a.jpg''), ([2], ?L ''a.jpg''), ([3], ?L ''a.jpg''),
       ([4], ?L ''a.jpg'')]"
    by (simp add: accepted_def six_images_def walk.simps cursor_defs cand eval_nat_numeral)
  have g1: "graft (place (\<lambda>q. None) (accepted working_decoder site_params six_images)) six_images = ?b1"
    unfolding acc1 by (simp add: L six_images_def responsive_image_def with_child_def eval_nat_numeral)
  have tag1: "tagName six_images = Some ''body''" by (simp add: six_images_def)
  have first: "document (transform working_decoder site_params (page six_images)) =
      update_at [0, 1] (\<lambda>old. ?b1) (page six_images)"
    using transform_found(1)[OF found_page(1) found_page(2)[OF tag1], of working_decoder site_params]
    unfolding g1 .
  have doc1: "update_at [0, 1] (\<lambda>old. ?b1) (page six_images) = page ?b1"
    by (simp add: page_def)
  have acc2: "accepted working_decoder site_params ?b1 = [([5], ?L ''a.jpg'')]"
    by (simp add: accepted_def walk.simps cursor_defs cand candidate_with_child[OF a] candidate_img
        eval_nat_numeral)
  have g2: "graft (place (\<lambda>q. None) (accepted working_decoder site_params ?b1)) ?b1 = ?b2"
    unfolding acc2 by (simp add: L responsive_image_def with_child_def eval_nat_numeral)
  have tag2: "tagName ?b1 = Some ''body''" by simp
  have second: "document (transform working_decoder site_params (page ?b1)) =
      update_at [0, 1] (\<lambda>old. ?b2) (page ?b1)"
    using transform_found(1)[OF found_page(1) found_page(2)[OF tag2], of working_decoder site_params]
    unfolding g2 .
  have "update_at [0, 1] (\<lambda>old. ?b2) (page ?b1) = page ?b2"
    by (simp add: page_def)
  moreover have "page ?b2 \<noteq> page ?b1"
    by (simp add: page_def with_child_def responsive_image_def)
  ultimately show ?thesis
    unfolding first doc1 second by simp
qed


text \<open>
  An image with a \<open>div\<close> placeholder child, and the page with two images, one of which
  cannot be decoded.
\<close>

theorem C5_witness:
  "hasPlaceholder (with_child (Element ''div'' [(''placeholder'', [])] []))
   \<and> candidate (with_child (Element ''div'' [(''placeholder'', [])] [])) = None
   \<and> \<not> has_template [([], broken_and_sound)]
   \<and> length (units_of (addBlurryPlaceholder working_decoder site_params) (preorder [] broken_and_sound)) \<le> 5
   \<and> document (transform working_decoder site_params
        (document (transform working_decoder site_params (page broken_and_sound))))
      = document (transform working_decoder site_params (page broken_and_sound))"
proof -
  have tag: "tagName broken_and_sound = Some ''body''" by (simp add: broken_and_sound_def)
  have has: "hasPlaceholder (with_child (Element ''div'' [(''placeholder'', [])] []))"
    by (simp add: hasPlaceholder_def placeholder_child_def attr_def)
  have free: "\<not> has_template [([], broken_and_sound)]"
    by (simp add: has_template_iff broken_and_sound_def responsive_image_def)
  have few: "length (units_of (addBlurryPlaceholder working_decoder site_params)
      (preorder [] broken_and_sound)) \<le> 5"
    unfolding length_units by (simp add: broken_and_sound_def responsive_image_def)
  show ?thesis
    using C5_placeholder_kept_single[of "with_child (Element ''div'' [(''placeholder'', [])] [])"
        "page broken_and_sound" 0 "Element ''html'' [] [Element ''head'' [] [], broken_and_sound]"
        1 broken_and_sound working_decoder site_params]
      found_page(1)[of broken_and_sound] found_page(2)[OF tag] has free few
    by simp
qed


end
